theory Spec2Isabelle
  imports Main
begin

section \<open>mtail-f: following files that are pre-filled with a filler byte\<close>

text \<open>
  A shallow embedding of \<^verbatim>\<open>src/mtail-f/src/mtail-f.c\<close>. A C \<^verbatim>\<open>char\<close> is a
  \<^typ>\<open>char\<close>, a \<^verbatim>\<open>char *\<close> buffer is a \<^typ>\<open>string\<close> whose length is the number
  of bytes that may be accessed, and a pointer that may be \<^verbatim>\<open>NULL\<close> is an
  \<^typ>\<open>'a option\<close>. A step with undefined behaviour in C (a read or write outside a
  buffer, a \<^verbatim>\<open>NULL\<close> pointer handed to the C library) is a \<open>fault\<close>, returned on
  the left of a sum. The \<^verbatim>\<open>int\<close> variables of the source are \<^typ>\<open>int\<close>: the
  counters of the program stay far below \<open>2 ^ 31\<close>. \<^verbatim>\<open>malloc\<close> is modelled as on
  glibc: it succeeds and returns a non-null block, also for size 0; only a negative
  element count (a request beyond the address space) fails.
\<close>

datatype fault = NullPointer | OutOfBounds | HeapOverflow | AllocFailed

abbreviation NUL :: char where
  "NUL \<equiv> CHR 0x00"

subsection \<open>The C library functions used on buffers\<close>

definition malloc :: "nat \<Rightarrow> string" where
  \<comment> \<open>a fresh block of \<open>n\<close> bytes; its first use below overwrites every byte of it\<close>
  "malloc n = replicate n NUL"

definition sizeof_ptr :: int where
  \<comment> \<open>\<^verbatim>\<open>sizeof(char *)\<close>, the value of \<^verbatim>\<open>sizeof(rb->line[index])\<close>, on an LP64 platform\<close>
  "sizeof_ptr = 8"

definition c_str :: "string \<Rightarrow> fault + string" where
  \<comment> \<open>what \<^verbatim>\<open>%s\<close> prints: the bytes before the first NUL\<close>
  "c_str b = (if NUL \<in> set b then Inr (takeWhile (\<lambda>c. c \<noteq> NUL) b) else Inl OutOfBounds)"

definition strncpy :: "string \<Rightarrow> string \<Rightarrow> nat \<Rightarrow> fault + string" where
  \<comment> \<open>copies up to the first NUL of \<open>src\<close>, at most \<open>n\<close> bytes, and pads with NUL to \<open>n\<close> bytes\<close>
  "strncpy dst src n =
     (if length dst < n then Inl HeapOverflow
      else if NUL \<notin> set (take n src) \<and> length src < n then Inl OutOfBounds
      else let s = takeWhile (\<lambda>c. c \<noteq> NUL) (take n src)
           in Inr (s @ replicate (n - length s) NUL @ drop n dst))"

subsection \<open>The ring buffer\<close>

text \<open>The field \<^verbatim>\<open>size\<close> is \<open>size_rb\<close> here; an allocated line is the bytes of its block.\<close>

record ring_buffer =
  latest_index :: int
  capacity :: int
  size_rb :: int
  line :: "string option list option"

definition ring_buffer_init :: "int \<Rightarrow> fault + ring_buffer" where
  "ring_buffer_init cap =
     (if cap < 0 then Inl AllocFailed
      else Inr \<lparr>latest_index = cap, capacity = cap, size_rb = 0,
                line = Some (replicate (nat cap) None)\<rparr>)"

definition enqueue :: "ring_buffer \<Rightarrow> string \<Rightarrow> int \<Rightarrow> fault + (ring_buffer \<times> string)" where
  \<comment> \<open>returns the buffer and the caller's \<open>line\<close>, whose byte \<open>len - 1\<close> is overwritten\<close>
  "enqueue rb ln len =
     (let index = (if latest_index rb + 1 \<ge> capacity rb then 0 else latest_index rb + 1)
      in case line rb of
           None \<Rightarrow> Inl NullPointer
         | Some slots \<Rightarrow>
             if index < 0 \<or> int (length slots) \<le> index then Inl OutOfBounds
             else if len < 1 \<or> int (length ln) < len then Inl OutOfBounds
             else
               let blk = (case slots ! nat index of
                            None \<Rightarrow> malloc (nat len)
                          | Some old \<Rightarrow> if sizeof_ptr < len then malloc (nat len) else old);
                   ln' = ln[nat (len - 1) := NUL]
               in case strncpy blk ln' (nat len) of
                    Inl e \<Rightarrow> Inl e
                  | Inr blk' \<Rightarrow>
                      Inr (rb\<lparr>latest_index := index,
                               size_rb := (if size_rb rb < capacity rb then size_rb rb + 1
                                           else size_rb rb),
                               line := Some (list_update slots (nat index) (Some blk'))\<rparr>, ln'))"

fun print_slots :: "nat \<Rightarrow> int \<Rightarrow> int \<Rightarrow> string option list \<Rightarrow> fault + (string \<times> string option list)" where
  \<comment> \<open>the \<^verbatim>\<open>for\<close> loop of \<^verbatim>\<open>print_ring_buffer\<close>, by the number of iterations left\<close>
  "print_slots 0 oldest_index sz slots = Inr ([], slots)"
| "print_slots (Suc n) oldest_index sz slots =
     (let oldest = (if oldest_index \<ge> sz then 0 else oldest_index)
      in if oldest < 0 \<or> int (length slots) \<le> oldest then Inl OutOfBounds
         else case slots ! nat oldest of
                None \<Rightarrow> Inl NullPointer
              | Some blk \<Rightarrow>
                  (case c_str blk of
                     Inl e \<Rightarrow> Inl e
                   | Inr s \<Rightarrow>
                       (case print_slots n (oldest + 1) sz (slots[nat oldest := None]) of
                          Inl e \<Rightarrow> Inl e
                        | Inr (out, slots') \<Rightarrow> Inr (s @ out, slots'))))"

definition print_ring_buffer :: "ring_buffer \<Rightarrow> fault + (string \<times> ring_buffer)" where
  \<comment> \<open>returns what was written to stdout, and the buffer\<close>
  "print_ring_buffer rb =
     (case line rb of
        None \<Rightarrow> Inr ([], rb)
      | Some slots \<Rightarrow>
          (case print_slots (nat (size_rb rb)) (latest_index rb + 1) (size_rb rb) slots of
             Inl e \<Rightarrow> Inl e
           | Inr (out, slots') \<Rightarrow> Inr (out, rb\<lparr>line := None\<rparr>)))"

subsection \<open>The boundary scanner\<close>

function find_end_scan :: "string \<Rightarrow> char \<Rightarrow> int \<Rightarrow> nat \<Rightarrow> nat option" where
  \<comment> \<open>the \<^verbatim>\<open>while\<close> loop: \<open>buf[i]\<close> is read before \<open>i < limit\<close> is tested\<close>
  "find_end_scan buf end_marker limit i =
     (if length buf \<le> i then None
      else if buf ! i \<noteq> end_marker \<and> int i < limit
           then find_end_scan buf end_marker limit (Suc i)
           else Some i)"
  by pat_completeness auto
termination
  by (relation "measure (\<lambda>(buf, m, limit, i). length buf - i)") auto

declare find_end_scan.simps [simp del]

definition find_end_index :: "string \<Rightarrow> char \<Rightarrow> int \<Rightarrow> fault + int" where
  "find_end_index buf end_marker limit =
     (case find_end_scan buf end_marker limit 0 of
        None \<Rightarrow> Inl OutOfBounds
      | Some i \<Rightarrow> if buf ! i = end_marker then Inr (int i) else Inr (- 1))"

definition fseek_cur :: "nat \<Rightarrow> int \<Rightarrow> nat" where
  \<comment> \<open>\<^verbatim>\<open>fseek(fp, off, SEEK_CUR)\<close>: a seek to before the start of the file fails and leaves the cursor\<close>
  "fseek_cur cursor off = (if int cursor + off < 0 then cursor else nat (int cursor + off))"

definition rewind_cursor :: "string \<Rightarrow> char \<Rightarrow> int \<Rightarrow> nat \<Rightarrow> fault + (int \<times> nat)" where
  \<comment> \<open>\<^verbatim>\<open>move_by\<close> and the cursor after the \<^verbatim>\<open>fseek\<close> by \<^verbatim>\<open>-move_by\<close>\<close>
  "rewind_cursor buf marker read_chars cursor =
     (case find_end_index buf marker read_chars of
        Inl e \<Rightarrow> Inl e
      | Inr k \<Rightarrow> let move_by = read_chars - k in Inr (move_by, fseek_cur cursor (- move_by)))"

subsection \<open>Parameters, targets and the environment\<close>

text \<open>
  Of \<^verbatim>\<open>mtail_params_t\<close> the fields that \<^verbatim>\<open>print_file_content\<close> reads; \<^verbatim>\<open>num_files\<close> is
  the length of \<^verbatim>\<open>files\<close>, as \<^verbatim>\<open>parse_opts\<close> sets it.
\<close>

record mtail_params =
  num_lines :: int
  quiet :: bool
  files :: "string list"
  delim :: char
  end_marker :: char

definition num_files :: "mtail_params \<Rightarrow> nat" where
  "num_files p = length (files p)"

text \<open>
  An open \<^verbatim>\<open>FILE *\<close> is its read cursor, \<^verbatim>\<open>NULL\<close> is \<open>None\<close>. The field \<open>drain_calls\<close> is
  not in the source: it counts the calls of \<^verbatim>\<open>print_ring_buffer\<close> for the target.
\<close>

record file_data =
  fp :: "nat option"
  rb :: ring_buffer
  end_reached :: bool
  delim :: char
  drain_calls :: nat

text \<open>
  What the program sees in one round of its outer loop: the content of every file that
  can be opened, and the answer of \<^verbatim>\<open>stop_conditions_met\<close> after the sleep.
\<close>

record round_env =
  disk :: "(string \<times> string) list"
  stop :: bool

definition fopen :: "round_env \<Rightarrow> string \<Rightarrow> nat option" where
  "fopen env path = (case map_of (disk env) path of None \<Rightarrow> None | Some c \<Rightarrow> Some 0)"

definition content_of :: "round_env \<Rightarrow> string \<Rightarrow> string" where
  "content_of env path = (case map_of (disk env) path of None \<Rightarrow> [] | Some c \<Rightarrow> c)"

definition getdelim :: "string \<Rightarrow> nat \<Rightarrow> char \<Rightarrow> string" where
  \<comment> \<open>the bytes read from the cursor: up to and including the delimiter, or up to the end
      of the file; none when the call returns -1\<close>
  "getdelim content cursor d =
     (let rest = drop cursor content
      in takeWhile (\<lambda>c. c \<noteq> d) rest @ take 1 (dropWhile (\<lambda>c. c \<noteq> d) rest))"

text \<open>stdout, and the two locals of \<^verbatim>\<open>print_file_content\<close> that steer the headers.\<close>

record printer =
  stdout :: string
  last_file_printed :: int
  print_file_name :: bool

definition header :: "string \<Rightarrow> string" where
  "header name = [CHR 0x0A] @ ''==> '' @ name @ '' <=='' @ [CHR 0x0A]"

definition need_to_print_file_name :: "mtail_params \<Rightarrow> bool" where
  "need_to_print_file_name p = (\<not> quiet p \<and> num_files p > 1)"

subsection \<open>Opening and closing\<close>

fun close_files :: "file_data list \<Rightarrow> nat \<Rightarrow> fault + file_data list" where
  "close_files fa 0 = Inr fa"
| "close_files fa (Suc n) =
     (if length fa \<le> n then Inl OutOfBounds
      else case fp (fa ! n) of
             None \<Rightarrow> Inl NullPointer
           | Some c \<Rightarrow> close_files (fa[n := (fa ! n)\<lparr>fp := None\<rparr>]) n)"

function open_files_from :: "round_env \<Rightarrow> string list \<Rightarrow> nat \<Rightarrow> nat \<Rightarrow> file_data list
    \<Rightarrow> fault + (bool \<times> file_data list)" where
  "open_files_from env filenames n i fa =
     (if i < n then
        if length fa \<le> i \<or> length filenames \<le> i then Inl OutOfBounds
        else if fp (fa ! i) \<noteq> None then open_files_from env filenames n (Suc i) fa
        else case fopen env (filenames ! i) of
               None \<Rightarrow> (case close_files fa i of
                          Inl e \<Rightarrow> Inl e
                        | Inr fa' \<Rightarrow> Inr (False, fa'))
             | Some c \<Rightarrow>
                 open_files_from env filenames n (Suc i) (fa[i := (fa ! i)\<lparr>fp := Some c\<rparr>])
      else Inr (True, fa))"
  by pat_completeness auto
termination
  by (relation "measure (\<lambda>(env, filenames, n, i, fa). n - i)") auto

declare open_files_from.simps [simp del]

definition open_files :: "round_env \<Rightarrow> string list \<Rightarrow> nat \<Rightarrow> file_data list
    \<Rightarrow> fault + (bool \<times> file_data list)" where
  "open_files env filenames n fa = open_files_from env filenames n 0 fa"

subsection \<open>One record of one target\<close>

definition handle_content :: "mtail_params \<Rightarrow> nat \<Rightarrow> string \<Rightarrow> int \<Rightarrow> file_data \<times> printer
    \<Rightarrow> fault + (string \<times> file_data \<times> printer)" where
  \<comment> \<open>lines 366 to 381: print or enqueue what was read, unless it starts with the marker\<close>
  "handle_content p i buf read_chars s =
     (case s of (fd, pr) \<Rightarrow>
        if buf = [] then Inl OutOfBounds
        else if buf ! 0 \<noteq> end_marker p then
          let pr1 = (if print_file_name pr \<and> last_file_printed pr \<noteq> int i
                     then pr\<lparr>stdout := stdout pr @ header (files p ! i),
                             last_file_printed := int i, print_file_name := False\<rparr>
                     else pr)
          in if end_reached fd then
               (case c_str buf of
                  Inl e \<Rightarrow> Inl e
                | Inr s \<Rightarrow> Inr (buf, fd, pr1\<lparr>stdout := stdout pr1 @ s\<rparr>))
             else
               (case enqueue (rb fd) buf (read_chars + 1) of
                  Inl e \<Rightarrow> Inl e
                | Inr (rb', buf') \<Rightarrow> Inr (buf', fd\<lparr>rb := rb'\<rparr>, pr1))
        else Inr (buf, fd, pr))"

definition boundary_transition :: "mtail_params \<Rightarrow> file_data \<times> printer
    \<Rightarrow> fault + (file_data \<times> printer)" where
  \<comment> \<open>lines 385 to 389\<close>
  "boundary_transition p s =
     (case s of (fd, pr) \<Rightarrow>
        if \<not> end_reached fd then
          (case print_ring_buffer (rb fd) of
             Inl e \<Rightarrow> Inl e
           | Inr (out, rb') \<Rightarrow>
               Inr (fd\<lparr>rb := rb', end_reached := True, delim := end_marker p,
                        drain_calls := drain_calls fd + 1\<rparr>,
                    pr\<lparr>stdout := stdout pr @ out\<rparr>))
        else Inr (fd, pr))"

definition end_marker_check :: "mtail_params \<Rightarrow> string \<Rightarrow> int \<Rightarrow> nat \<Rightarrow> file_data \<times> printer
    \<Rightarrow> fault + (nat option \<times> file_data \<times> printer)" where
  \<comment> \<open>lines 383 to 402; \<open>Some c\<close>: the cursor was moved to \<open>c\<close> and the loop is left\<close>
  "end_marker_check p buf read_chars cursor s =
     (if read_chars < 1 \<or> int (length buf) < read_chars then Inl OutOfBounds
      else if buf ! nat (read_chars - 1) = end_marker p then
        (case boundary_transition p s of
           Inl e \<Rightarrow> Inl e
         | Inr s' \<Rightarrow>
             (case rewind_cursor buf (end_marker p) read_chars cursor of
                Inl e \<Rightarrow> Inl e
              | Inr (move_by, cursor') \<Rightarrow> Inr (Some cursor', s')))
      else Inr (None, s))"

definition loop_body :: "mtail_params \<Rightarrow> nat \<Rightarrow> string \<Rightarrow> nat \<Rightarrow> file_data \<times> printer
    \<Rightarrow> fault + (nat option \<times> file_data \<times> printer)" where
  \<comment> \<open>the body of the \<^verbatim>\<open>while\<close> loop for the bytes \<open>chunk\<close> that \<^verbatim>\<open>getdelim\<close> read,
      which left the cursor at \<open>cursor\<close> and a NUL after the bytes in \<open>buf\<close>\<close>
  "loop_body p i chunk cursor s =
     (let buf = chunk @ [NUL]; read_chars = int (length chunk)
      in case handle_content p i buf read_chars s of
           Inl e \<Rightarrow> Inl e
         | Inr (buf', s') \<Rightarrow> end_marker_check p buf' read_chars cursor s')"

subsection \<open>The loops of \<^verbatim>\<open>print_file_content\<close>\<close>

text \<open>
  The inner \<^verbatim>\<open>while\<close> loop reads the content the file has in this round. It ends when
  nothing is left to read, or at a record that ends with the marker.
\<close>

function read_loop :: "mtail_params \<Rightarrow> nat \<Rightarrow> string \<Rightarrow> nat \<Rightarrow> file_data \<times> printer
    \<Rightarrow> fault + (nat \<times> file_data \<times> printer)" where
  "read_loop p i content cursor s =
     (let chunk = getdelim content cursor (delim (fst s))
      in if chunk = [] then Inr (cursor, s)
         else case loop_body p i chunk (cursor + length chunk) s of
                Inl e \<Rightarrow> Inl e
              | Inr (Some cursor', s') \<Rightarrow> Inr (cursor', s')
              | Inr (None, s') \<Rightarrow> read_loop p i content (cursor + length chunk) s')"
  by pat_completeness auto
termination
proof (relation "measure (\<lambda>(p, i, content, cursor, s). length content - cursor)")
  show "wf (measure (\<lambda>(p, i, content, cursor, s). length content - cursor))"
    by simp
next
  fix p :: mtail_params and i :: nat and content :: string and cursor :: nat
    and s :: "file_data \<times> printer" and chunk :: string
  assume c: "chunk = getdelim content cursor (delim (fst s))" and ne: "chunk \<noteq> []"
  have "cursor < length content"
  proof (rule ccontr)
    assume "\<not> cursor < length content"
    then have "drop cursor content = []" by simp
    with c ne show False by (simp add: getdelim_def)
  qed
  moreover from ne have "0 < length chunk" by simp
  ultimately show "((p, i, content, cursor + length chunk, s'), (p, i, content, cursor, s))
      \<in> measure (\<lambda>(p, i, content, cursor, s). length content - cursor)" for s'
    by (simp del: length_greater_0_conv)
qed

declare read_loop.simps [simp del]

definition poll_file :: "mtail_params \<Rightarrow> round_env \<Rightarrow> nat \<Rightarrow> file_data list \<times> printer
    \<Rightarrow> fault + (file_data list \<times> printer)" where
  \<comment> \<open>the body of the \<^verbatim>\<open>for\<close> loop over the files\<close>
  "poll_file p env i st =
     (case st of (fa, pr) \<Rightarrow>
        if length fa \<le> i then Inl OutOfBounds
        else case fp (fa ! i) of
               None \<Rightarrow> Inl NullPointer
             | Some cursor \<Rightarrow>
                 (case read_loop p i (content_of env (files p ! i)) cursor
                         (fa ! i, pr\<lparr>print_file_name := need_to_print_file_name p\<rparr>) of
                    Inl e \<Rightarrow> Inl e
                  | Inr (cursor', fd', pr') \<Rightarrow>
                      Inr (list_update fa i (fd'\<lparr>fp := Some cursor'\<rparr>), pr')))"

fun poll_files :: "mtail_params \<Rightarrow> round_env \<Rightarrow> nat list \<Rightarrow> file_data list \<times> printer
    \<Rightarrow> fault + (file_data list \<times> printer)" where
  "poll_files p env [] st = Inr st"
| "poll_files p env (i # is) st =
     (case poll_file p env i st of
        Inl e \<Rightarrow> Inl e
      | Inr st' \<Rightarrow> poll_files p env is st')"

text \<open>
  The outer \<^verbatim>\<open>while (true)\<close> loop, run against the rounds that were observed. The result
  says whether the loop was left (a failed open, or the stop condition) or is still
  running when the observation ends.
\<close>

fun poll_rounds :: "mtail_params \<Rightarrow> round_env list \<Rightarrow> file_data list \<times> printer
    \<Rightarrow> fault + (bool \<times> file_data list \<times> printer)" where
  "poll_rounds p [] st = Inr (False, st)"
| "poll_rounds p (env # envs) st =
     (case open_files env (files p) (num_files p) (fst st) of
        Inl e \<Rightarrow> Inl e
      | Inr (opened, fa) \<Rightarrow>
          if \<not> opened then Inr (True, fa, snd st)
          else (case poll_files p env [0 ..< num_files p] (fa, snd st) of
                  Inl e \<Rightarrow> Inl e
                | Inr st' \<Rightarrow> if stop env then Inr (True, st') else poll_rounds p envs st'))"

definition init_files :: "mtail_params \<Rightarrow> fault + file_data list" where
  \<comment> \<open>lines 335 to 342\<close>
  "init_files p =
     (if num_files p = 0 then Inr []
      else case ring_buffer_init (num_lines p) of
             Inl e \<Rightarrow> Inl e
           | Inr r \<Rightarrow>
               Inr (replicate (num_files p)
                      \<lparr>fp = None, rb = r, end_reached = (num_lines p = 0),
                       delim = mtail_params.delim p, drain_calls = 0\<rparr>))"

definition init_printer :: printer where
  "init_printer = \<lparr>stdout = [], last_file_printed = - 1, print_file_name = False\<rparr>"

definition follow :: "mtail_params \<Rightarrow> round_env list
    \<Rightarrow> fault + (bool \<times> file_data list \<times> printer)" where
  \<comment> \<open>\<^verbatim>\<open>print_file_content\<close> up to the end of its outer loop\<close>
  "follow p envs =
     (case init_files p of
        Inl e \<Rightarrow> Inl e
      | Inr fa \<Rightarrow> poll_rounds p envs (fa, init_printer))"

definition print_file_content :: "mtail_params \<Rightarrow> round_env list
    \<Rightarrow> fault + (bool option \<times> file_data list \<times> printer)" where
  \<comment> \<open>\<open>Some True\<close>: the function returned \<^verbatim>\<open>true\<close>; \<open>None\<close>: it is still in its loop\<close>
  "print_file_content p envs =
     (case follow p envs of
        Inl e \<Rightarrow> Inl e
      | Inr (left, fa, pr) \<Rightarrow>
          if left then
            (case close_files fa (num_files p) of
               Inl e \<Rightarrow> Inl e
             | Inr fa' \<Rightarrow> Inr (Some True, fa', pr))
          else Inr (None, fa, pr))"

definition EXIT_SUCCESS :: int where
  "EXIT_SUCCESS = 0"

definition main :: "mtail_params \<Rightarrow> round_env list \<Rightarrow> fault + (int option \<times> string)" where
  \<comment> \<open>\<^verbatim>\<open>main\<close> after \<^verbatim>\<open>parse_opts\<close> has filled the parameters: the exit code, if the
      process has exited, and what was written to stdout\<close>
  "main p envs =
     (case print_file_content p envs of
        Inl e \<Rightarrow> Inl e
      | Inr (None, fa, pr) \<Rightarrow> Inr (None, stdout pr)
      | Inr (Some b, fa, pr) \<Rightarrow> Inr (Some EXIT_SUCCESS, stdout pr))"

subsection \<open>Sequences of calls\<close>

text \<open>
  The ring buffer of a target is filled by the calls \<^verbatim>\<open>enqueue(&rb, buf, read_chars+1)\<close>
  of \<^verbatim>\<open>print_file_content\<close>, where \<^verbatim>\<open>buf\<close> holds the record and the NUL that
  \<^verbatim>\<open>getdelim\<close> puts after it.
\<close>

fun enqueue_all :: "ring_buffer \<Rightarrow> string list \<Rightarrow> fault + ring_buffer" where
  "enqueue_all r [] = Inr r"
| "enqueue_all r (l # ls) =
     (case enqueue r (l @ [NUL]) (int (length l) + 1) of
        Inl e \<Rightarrow> Inl e
      | Inr (r', buf) \<Rightarrow> enqueue_all r' ls)"

definition drain_after :: "int \<Rightarrow> string list \<Rightarrow> fault + string" where
  \<comment> \<open>what \<^verbatim>\<open>print_ring_buffer\<close> writes after the records were enqueued into a fresh
      buffer of the given capacity\<close>
  "drain_after cap ls =
     (case ring_buffer_init cap of
        Inl e \<Rightarrow> Inl e
      | Inr r \<Rightarrow>
          (case enqueue_all r ls of
             Inl e \<Rightarrow> Inl e
           | Inr r' \<Rightarrow>
               (case print_ring_buffer r' of
                  Inl e \<Rightarrow> Inl e
                | Inr (out, r'') \<Rightarrow> Inr out)))"

text \<open>
  A buffer of capacity \<open>c\<close> after the strings \<open>rs\<close> were stored, one per call of
  \<^verbatim>\<open>enqueue\<close>: string \<open>j\<close> of the last \<open>c\<close> is in slot \<open>j mod c\<close>.
\<close>

definition stores :: "nat \<Rightarrow> string list \<Rightarrow> ring_buffer \<Rightarrow> bool" where
  "stores c rs r =
     (capacity r = int c \<and> size_rb r = int (min (length rs) c)
      \<and> latest_index r = (if rs = [] then int c else int ((length rs - 1) mod c))
      \<and> (\<exists>slots. line r = Some slots \<and> length slots = c
            \<and> (\<forall>j < length rs. length rs - c \<le> j \<longrightarrow>
                  (\<exists>blk. slots ! (j mod c) = Some blk \<and> c_str blk = Inr (rs ! j)))))"

subsection \<open>The state of a target\<close>

text \<open>
  What holds of a target between any two records. Without a tail buffer
  (\<^verbatim>\<open>num_lines\<close> is 0) the target is past the boundary from the start, and its buffer is
  the one \<^verbatim>\<open>ring_buffer_init\<close> made. Otherwise the buffer is there until the boundary is
  found and gone after it, \<^verbatim>\<open>print_ring_buffer\<close> was called once if the boundary was
  found and never if not, and the target reads up to the marker after the boundary
  and up to the delimiter of the parameters before it.
\<close>

definition target_ok :: "mtail_params \<Rightarrow> file_data \<Rightarrow> bool" where
  "target_ok p fd =
     (if num_lines p = 0
      then end_reached fd \<and> drain_calls fd = 0 \<and> ring_buffer_init 0 = Inr (rb fd)
      else (line (rb fd) = None) = end_reached fd
         \<and> drain_calls fd = (if end_reached fd then 1 else 0)
         \<and> delim fd = (if end_reached fd then end_marker p else mtail_params.delim p))"

text \<open>
  How a target changes from one moment to a later one: what holds of a target keeps
  holding, and once past the boundary the target stays there, with its buffer, its
  delimiter and the number of drains as they were.
\<close>

definition evolves :: "mtail_params \<Rightarrow> file_data \<Rightarrow> file_data \<Rightarrow> bool" where
  "evolves p fd fd' =
     ((target_ok p fd \<longrightarrow> target_ok p fd')
      \<and> (end_reached fd \<longrightarrow> end_reached fd' \<and> drain_calls fd' = drain_calls fd
            \<and> rb fd' = rb fd \<and> delim fd' = delim fd))"

text \<open>The targets are all open and past the boundary.\<close>

definition ready :: "file_data list \<Rightarrow> bool" where
  "ready fa = (\<forall>fd \<in> set fa. fp fd \<noteq> None \<and> end_reached fd)"

subsection \<open>Example inputs\<close>

definition ex_params :: mtail_params where
  "ex_params = \<lparr>num_lines = 2, quiet = False, files = [''f''], delim = CHR 0x0A, end_marker = NUL\<rparr>"

definition ex_round1 :: round_env where
  "ex_round1 = \<lparr>disk = [(''f'', ''a'' @ [CHR 0x0A])], stop = False\<rparr>"

definition ex_round2 :: round_env where
  "ex_round2 = \<lparr>disk = [(''f'', ''a'' @ [CHR 0x0A, NUL])], stop = False\<rparr>"

definition ex_two :: mtail_params where
  "ex_two = \<lparr>num_lines = 2, quiet = False, files = [''f1'', ''f2''], delim = CHR 0x0A, end_marker = NUL\<rparr>"

section \<open>Properties\<close>

subsection \<open>The boundary scanner\<close>

lemma find_end_scan_first:
  "i \<le> k \<Longrightarrow> k < length buf \<Longrightarrow> buf ! k = m \<Longrightarrow> (\<forall>j. i \<le> j \<and> j < k \<longrightarrow> buf ! j \<noteq> m)
    \<Longrightarrow> int k \<le> limit \<Longrightarrow> find_end_scan buf m limit i = Some k"
proof (induction "k - i" arbitrary: i)
  case 0
  then have "i = k" by simp
  with 0 show ?case by (simp add: find_end_scan.simps)
next
  case (Suc d)
  then have lt: "i < k" by simp
  with Suc.prems have ne: "buf ! i \<noteq> m" by simp
  have "find_end_scan buf m limit (Suc i) = Some k"
    using Suc.hyps Suc.prems lt by (intro Suc.hyps(1)) auto
  with lt ne Suc.prems show ?case
    by (subst find_end_scan.simps) simp
qed

lemma find_end_index_first:
  assumes "k < length buf" "buf ! k = m" "\<forall>j < k. buf ! j \<noteq> m" "int k \<le> limit"
  shows "find_end_index buf m limit = Inr (int k)"
  using find_end_scan_first [of 0 k buf m limit] assms by (simp add: find_end_index_def)

text \<open>
  C5 (the code differs). \<^verbatim>\<open>find_end_index\<close> is to return the offset of the first marker
  among the first \<open>limit\<close> bytes, and -1 when there is none. Its loop stops at
  \<open>i = limit\<close> and the test after the loop then reads \<open>buf[limit]\<close>: for the two bytes
  \<open>ab\<close> followed by the NUL that ends the buffer, marker NUL and limit 2, none of the
  first two bytes is the marker, and the function returns 2.
\<close>

theorem find_end_index_reads_past_limit:
  "find_end_index (''ab'' @ [NUL]) NUL 2 = Inr 2"
  by code_simp

lemma getdelim_prefix:
  "getdelim content pos d = take (length (getdelim content pos d)) (drop pos content)"
proof -
  define rest where "rest = drop pos content"
  define tw where "tw = takeWhile (\<lambda>c. c \<noteq> d) rest"
  define dw where "dw = dropWhile (\<lambda>c. c \<noteq> d) rest"
  have r: "rest = tw @ dw" by (simp add: tw_def dw_def)
  have g: "getdelim content pos d = tw @ take 1 dw"
    by (simp add: getdelim_def rest_def tw_def dw_def Let_def)
  have "take (length (tw @ take 1 dw)) (tw @ dw) = tw @ take 1 dw"
    by (cases dw) simp_all
  with r g show ?thesis by (simp add: rest_def)
qed

lemma getdelim_nth:
  assumes "i < length (getdelim content pos d)"
  shows "pos + i < length content \<and> getdelim content pos d ! i = content ! (pos + i)"
proof -
  let ?n = "length (getdelim content pos d)"
  have e: "getdelim content pos d = take ?n (drop pos content)" by (rule getdelim_prefix)
  have "?n \<le> length (drop pos content)"
    by (subst e) simp
  with assms have l: "pos + i < length content" by simp
  have "getdelim content pos d ! i = take ?n (drop pos content) ! i" using e by simp
  also have "\<dots> = content ! (pos + i)" using assms l by simp
  finally show ?thesis using l by simp
qed

lemma getdelim_hd:
  assumes "pos < length content"
  shows "getdelim content pos d \<noteq> [] \<and> hd (getdelim content pos d) = content ! pos"
proof -
  from assms obtain x xs where r: "drop pos content = x # xs"
    by (cases "drop pos content") auto
  then have "content ! pos = x"
    using assms by (metis Cons_nth_drop_Suc list.inject)
  with r show ?thesis by (simp add: getdelim_def Let_def)
qed

lemma handle_content_buf:
  "handle_content p k (chunk @ [NUL]) (int (length chunk)) s = Inr (buf', s')
     \<Longrightarrow> buf' = chunk @ [NUL]"
  by (cases s) (auto simp: handle_content_def enqueue_def Let_def
      split: if_splits sum.splits option.splits)

lemma rewind_cursor_first:
  assumes "i < length chunk" "chunk ! i = m" "\<forall>j<i. chunk ! j \<noteq> m"
  shows "rewind_cursor (chunk @ [NUL]) m (int (length chunk)) (pos + length chunk)
           = Inr (int (length chunk) - int i, pos + i)"
proof -
  have "find_end_index (chunk @ [NUL]) m (int (length chunk)) = Inr (int i)"
    using assms by (intro find_end_index_first) (auto simp: nth_append)
  then show ?thesis
    using assms(1) by (simp add: rewind_cursor_def fseek_cur_def)
qed

text \<open>
  C1. A chunk of length \<open>L\<close> was read at the cursor \<open>pos\<close>, its last byte is the marker
  and its first marker is at offset \<open>i\<close>. Then \<^verbatim>\<open>move_by\<close> is \<open>L - i\<close>, the seek
  moves the cursor from \<open>pos + L\<close> to \<open>pos + i\<close>, the next read (with any delimiter)
  starts with the marker byte found there, and the loop body leaves the cursor there.
\<close>

theorem rewind_to_first_marker:
  assumes "chunk = getdelim content pos d"
    and "i < length chunk" and "chunk ! i = m" and "\<forall>j<i. chunk ! j \<noteq> m"
    and "last chunk = m"
  shows "rewind_cursor (chunk @ [NUL]) m (int (length chunk)) (pos + length chunk)
           = Inr (int (length chunk) - int i, pos + i)
    \<and> getdelim content (pos + i) d' \<noteq> [] \<and> hd (getdelim content (pos + i) d') = m
    \<and> (\<forall>p k s c s'. end_marker p = m \<and> loop_body p k chunk (pos + length chunk) s = Inr (c, s')
          \<longrightarrow> c = Some (pos + i))"
proof -
  have rw: "rewind_cursor (chunk @ [NUL]) m (int (length chunk)) (pos + length chunk)
           = Inr (int (length chunk) - int i, pos + i)"
    using assms(2-4) by (rule rewind_cursor_first)
  from assms(1,2) have nth: "pos + i < length content \<and> chunk ! i = content ! (pos + i)"
    using getdelim_nth [of i content pos d] by simp
  with assms(3) have hd: "getdelim content (pos + i) d' \<noteq> [] \<and> hd (getdelim content (pos + i) d') = m"
    using getdelim_hd [of "pos + i" content d'] by simp
  have lb: "c = Some (pos + i)"
    if "end_marker p = m" and "loop_body p k chunk (pos + length chunk) s = Inr (c, s')"
    for p k s c s'
  proof -
    from that(2) obtain buf' s1 where
      h: "handle_content p k (chunk @ [NUL]) (int (length chunk)) s = Inr (buf', s1)"
      and e: "end_marker_check p buf' (int (length chunk)) (pos + length chunk) s1 = Inr (c, s')"
      by (auto simp: loop_body_def Let_def split: sum.splits)
    from h have b: "buf' = chunk @ [NUL]" by (rule handle_content_buf)
    from assms(2) have ne: "chunk \<noteq> []" by auto
    have "(chunk @ [NUL]) ! nat (int (length chunk) - 1) = last chunk"
      using ne by (simp add: nth_append last_conv_nth nat_diff_distrib')
    with assms(5) that(1) have "(chunk @ [NUL]) ! nat (int (length chunk) - 1) = end_marker p"
      by simp
    with e b rw that(1) ne show ?thesis
      by (auto simp: end_marker_check_def split: sum.splits if_splits)
  qed
  from rw hd lb show ?thesis by blast
qed

theorem rewind_to_first_marker_witness:
  "''ab'' @ [NUL, NUL] = getdelim (''ab'' @ [NUL, NUL]) 0 (CHR 0x0A)
   \<and> (2::nat) < length (''ab'' @ [NUL, NUL]) \<and> (''ab'' @ [NUL, NUL]) ! 2 = NUL
   \<and> (''ab'' @ [NUL, NUL]) ! 0 \<noteq> NUL \<and> (''ab'' @ [NUL, NUL]) ! 1 \<noteq> NUL
   \<and> last (''ab'' @ [NUL, NUL]) = NUL
   \<and> rewind_cursor ((''ab'' @ [NUL, NUL]) @ [NUL]) NUL (int (length (''ab'' @ [NUL, NUL])))
        (0 + length (''ab'' @ [NUL, NUL])) = Inr (int (length (''ab'' @ [NUL, NUL])) - int 2, 0 + 2)
   \<and> getdelim (''ab'' @ [NUL, NUL]) (0 + 2) NUL \<noteq> []
   \<and> hd (getdelim (''ab'' @ [NUL, NUL]) (0 + 2) NUL) = NUL
   \<and> loop_body ex_params 0 (''ab'' @ [NUL, NUL]) (0 + length (''ab'' @ [NUL, NUL]))
        (\<lparr>fp = Some 0,
           rb = \<lparr>latest_index = 2, capacity = 2, size_rb = 0, line = Some [None, None]\<rparr>,
           end_reached = False, delim = CHR 0x0A, drain_calls = 0\<rparr>,
         \<lparr>stdout = [], last_file_printed = - 1, print_file_name = False\<rparr>)
      = Inr (Some (0 + 2),
         \<lparr>fp = Some 0,
           rb = \<lparr>latest_index = 0, capacity = 2, size_rb = 1, line = None\<rparr>,
           end_reached = True, delim = NUL, drain_calls = 1\<rparr>,
         \<lparr>stdout = ''ab'', last_file_printed = - 1, print_file_name = False\<rparr>)"
proof -
  have a: "''ab'' @ [NUL, NUL] = getdelim (''ab'' @ [NUL, NUL]) 0 (CHR 0x0A)"
    by code_simp
  have b: "(2::nat) < length (''ab'' @ [NUL, NUL])" by simp
  have c: "(''ab'' @ [NUL, NUL]) ! 2 = NUL" by code_simp
  have d0: "(''ab'' @ [NUL, NUL]) ! 0 \<noteq> NUL \<and> (''ab'' @ [NUL, NUL]) ! 1 \<noteq> NUL"
    by simp
  then have d: "\<forall>j<2. (''ab'' @ [NUL, NUL]) ! j \<noteq> NUL"
    by (auto simp: less_Suc_eq numeral_2_eq_2)
  have e: "last (''ab'' @ [NUL, NUL]) = NUL" by simp
  have l: "loop_body ex_params 0 (''ab'' @ [NUL, NUL]) (0 + length (''ab'' @ [NUL, NUL]))
        (\<lparr>fp = Some 0,
           rb = \<lparr>latest_index = 2, capacity = 2, size_rb = 0, line = Some [None, None]\<rparr>,
           end_reached = False, delim = CHR 0x0A, drain_calls = 0\<rparr>,
         \<lparr>stdout = [], last_file_printed = - 1, print_file_name = False\<rparr>)
      = Inr (Some (0 + 2),
         \<lparr>fp = Some 0,
           rb = \<lparr>latest_index = 0, capacity = 2, size_rb = 1, line = None\<rparr>,
           end_reached = True, delim = NUL, drain_calls = 1\<rparr>,
         \<lparr>stdout = ''ab'', last_file_printed = - 1, print_file_name = False\<rparr>)"
    by code_simp
  from rewind_to_first_marker [OF a b c d e, of NUL] a b c d0 e l show ?thesis
    by blast
qed

subsection \<open>The ring buffer\<close>

text \<open>
  C10. After \<^verbatim>\<open>print_ring_buffer\<close> has run, the array of records is \<^verbatim>\<open>NULL\<close>, and a
  second call returns at once: it writes nothing and leaves the buffer as it is.
\<close>

theorem print_ring_buffer_twice:
  "print_ring_buffer r = Inr (out, r') \<Longrightarrow>
     line r' = None \<and> print_ring_buffer r' = Inr ([], r')"
  by (auto simp: print_ring_buffer_def split: option.splits sum.splits)

theorem print_ring_buffer_twice_witness:
  "enqueue_all \<lparr>latest_index = 2, capacity = 2, size_rb = 0, line = Some [None, None]\<rparr>
       [''a'' @ [CHR 0x0A]]
     = Inr \<lparr>latest_index = 0, capacity = 2, size_rb = 1,
            line = Some [Some (''a'' @ [CHR 0x0A, NUL]), None]\<rparr>
   \<and> print_ring_buffer \<lparr>latest_index = 0, capacity = 2, size_rb = 1,
       line = Some [Some (''a'' @ [CHR 0x0A, NUL]), None]\<rparr>
     = Inr (''a'' @ [CHR 0x0A], \<lparr>latest_index = 0, capacity = 2, size_rb = 1, line = None\<rparr>)
   \<and> line \<lparr>latest_index = 0, capacity = 2, size_rb = 1, line = None\<rparr> = None
   \<and> print_ring_buffer \<lparr>latest_index = 0, capacity = 2, size_rb = 1, line = None\<rparr>
     = Inr ([], \<lparr>latest_index = 0, capacity = 2, size_rb = 1, line = None\<rparr>)"
proof -
  have e: "enqueue_all \<lparr>latest_index = 2, capacity = 2, size_rb = 0, line = Some [None, None]\<rparr>
       [''a'' @ [CHR 0x0A]]
     = Inr \<lparr>latest_index = 0, capacity = 2, size_rb = 1,
            line = Some [Some (''a'' @ [CHR 0x0A, NUL]), None]\<rparr>"
    by code_simp
  have d: "print_ring_buffer \<lparr>latest_index = 0, capacity = 2, size_rb = 1,
       line = Some [Some (''a'' @ [CHR 0x0A, NUL]), None]\<rparr>
     = Inr (''a'' @ [CHR 0x0A], \<lparr>latest_index = 0, capacity = 2, size_rb = 1, line = None\<rparr>)"
    by code_simp
  from print_ring_buffer_twice [OF d] d e show ?thesis by simp
qed

text \<open>
  C3 (the code differs). More records than the capacity are enqueued and the buffer is
  drained: the last \<open>capacity\<close> records are to be written, oldest first. \<^verbatim>\<open>enqueue\<close>
  takes \<^verbatim>\<open>sizeof(rb->line[index])\<close>, the size of a pointer, for the size of the block in
  the slot. With capacity 1, the line \<open>a\<close> gets a block of 3 bytes (the letter, the
  newline and the NUL); the next line \<open>ab\<close> needs 4 bytes, which is not more than the
  size of a pointer, so the block is kept and \<^verbatim>\<open>strncpy\<close> writes 4 bytes into it.
\<close>

theorem enqueue_overflows_reused_block:
  "drain_after 1 [''a'' @ [CHR 0x0A], ''ab'' @ [CHR 0x0A]] = Inl HeapOverflow"
  by code_simp

text \<open>
  Apart from that write, \<^verbatim>\<open>enqueue\<close> and \<^verbatim>\<open>print_ring_buffer\<close> keep the last records
  in order: whenever the calls go through, the drain writes the last \<open>cap\<close> records,
  oldest first, each as the C string that was stored. They do go through when every
  record has at least as many bytes as a pointer, since \<^verbatim>\<open>enqueue\<close> then allocates a
  block for each record.
\<close>

lemma mod_neq_window:
  fixes j n c :: nat
  assumes "j < n" and "n - j < c"
  shows "j mod c \<noteq> n mod c"
proof
  assume "j mod c = n mod c"
  then have "c dvd n - j" using assms(1)
    by (metis mod_eq_dvd_iff_nat less_imp_le_nat)
  with assms show False by (auto dest: dvd_imp_le)
qed

lemma c_str_strncpy:
  assumes "strncpy blk (l @ [NUL]) (Suc (length l)) = Inr blk'"
  shows "c_str blk' = Inr (takeWhile (\<lambda>c. c \<noteq> NUL) l)"
proof -
  let ?s = "takeWhile (\<lambda>c. c \<noteq> NUL) l"
  have t: "takeWhile (\<lambda>c. c \<noteq> NUL) (l @ [NUL]) = ?s"
    by (induction l) auto
  have len: "length ?s < Suc (length l)"
    using length_takeWhile_le [of "\<lambda>c. c \<noteq> NUL" l] by simp
  from assms have b: "blk' = ?s @ replicate (Suc (length l) - length ?s) NUL @ drop (Suc (length l)) blk"
    by (auto simp: strncpy_def Let_def t split: if_splits)
  from len obtain m where m: "Suc (length l) - length ?s = Suc m"
    by (metis Suc_diff_le less_Suc_eq_le)
  have tw: "takeWhile (\<lambda>c. c \<noteq> NUL) (?s @ NUL # xs) = ?s" for xs
    by (induction l) auto
  from b m show ?thesis
    by (simp add: c_str_def tw)
qed

lemma stores_next_index:
  assumes "stores c rs r" and "0 < c"
  shows "(if latest_index r + 1 \<ge> capacity r then 0 else latest_index r + 1)
           = int (length rs mod c)"
proof -
  from assms(1) have cap: "capacity r = int c"
    and li: "latest_index r = (if rs = [] then int c else int ((length rs - 1) mod c))"
    by (auto simp: stores_def)
  show ?thesis
  proof (cases "rs = []")
    case True
    with li cap show ?thesis by simp
  next
    case False
    then obtain m where m: "length rs = Suc m" by (cases rs) auto
    have "m mod c < c" using assms(2) by simp
    with m li cap False show ?thesis
      by (auto simp: mod_Suc)
  qed
qed

lemma enqueue_stores:
  assumes "stores c rs r" and "0 < c"
    and "enqueue r (l @ [NUL]) (int (length l) + 1) = Inr (r', b)"
  shows "stores c (rs @ [takeWhile (\<lambda>c. c \<noteq> NUL) l]) r'"
proof -
  let ?n = "length rs"
  from assms(1) obtain slots where
    cap: "capacity r = int c" and sz: "size_rb r = int (min ?n c)"
    and sl: "line r = Some slots" "length slots = c"
    and st: "\<forall>j < ?n. ?n - c \<le> j \<longrightarrow>
                  (\<exists>blk. slots ! (j mod c) = Some blk \<and> c_str blk = Inr (rs ! j))"
    by (auto simp: stores_def)
  note idx = stores_next_index [OF assms(1,2)]
  from assms(3) sl idx assms(2) obtain blk blk' where
    cp: "strncpy blk (l @ [NUL]) (Suc (length l)) = Inr blk'"
    and r': "r' = r\<lparr>latest_index := int (?n mod c),
                     size_rb := (if size_rb r < capacity r then size_rb r + 1 else size_rb r),
                     line := Some (list_update slots (?n mod c) (Some blk'))\<rparr>"
    by (auto simp: enqueue_def Let_def nat_add_distrib split: if_splits sum.splits)
  from c_str_strncpy [OF cp] have cs: "c_str blk' = Inr (takeWhile (\<lambda>c. c \<noteq> NUL) l)" .
  let ?rs = "rs @ [takeWhile (\<lambda>c. c \<noteq> NUL) l]"
  have "\<exists>blk. (list_update slots (?n mod c) (Some blk')) ! (j mod c) = Some blk
            \<and> c_str blk = Inr (?rs ! j)"
    if j: "j < length ?rs" "length ?rs - c \<le> j" for j
  proof (cases "j = ?n")
    case True
    with cs sl assms(2) show ?thesis by (simp add: nth_append)
  next
    case False
    with j have lt: "j < ?n" by simp
    with j have "?n - j < c" by simp
    from mod_neq_window [OF lt this] have ne: "j mod c \<noteq> ?n mod c" .
    from st lt j have "\<exists>blk. slots ! (j mod c) = Some blk \<and> c_str blk = Inr (rs ! j)"
      by simp
    with ne lt show ?thesis by (simp add: nth_append)
  qed
  with r' cap sz sl show ?thesis
    by (auto simp: stores_def)
qed

lemma enqueue_long_record:
  assumes "stores c rs r" and "0 < c" and "sizeof_ptr \<le> int (length l)"
  shows "\<exists>r' b. enqueue r (l @ [NUL]) (int (length l) + 1) = Inr (r', b)"
proof -
  from assms(1) obtain slots where sl: "line r = Some slots" "length slots = c"
    by (auto simp: stores_def)
  note idx = stores_next_index [OF assms(1,2)]
  have lt: "length rs mod c < c" using assms(2) by simp
  have "\<exists>blk'. strncpy (malloc (Suc (length l))) ((l @ [NUL])[length l := NUL]) (Suc (length l))
          = Inr blk'"
    by (simp add: strncpy_def malloc_def Let_def)
  with sl idx lt assms(3) show ?thesis
    by (auto simp: enqueue_def Let_def nat_add_distrib split: option.splits)
qed

lemma print_slots_cycle:
  assumes "k \<le> sz" and "sz \<le> length slots" and "start \<le> sz"
    and "\<forall>t < k. \<exists>blk. slots ! ((start + t) mod sz) = Some blk \<and> c_str blk = Inr (f t)"
  shows "\<exists>slots'. print_slots k (int start) (int sz) slots = Inr (concat (map f [0 ..< k]), slots')"
  using assms
proof (induction k arbitrary: start slots f)
  case 0
  then show ?case by simp
next
  case (Suc k)
  from Suc.prems(1) have pos: "0 < sz" by simp
  let ?w = "start mod sz"
  have w: "(if int start \<ge> int sz then 0 else int start) = int ?w"
    using Suc.prems(3) by (cases "start = sz") auto
  have wlt: "?w < sz" using pos by simp
  from Suc.prems(4) obtain blk where
    blk: "slots ! ?w = Some blk" "c_str blk = Inr (f 0)"
    by fastforce
  let ?slots = "slots[?w := None]"
  have "\<exists>blk. ?slots ! ((Suc ?w + t) mod sz) = Some blk \<and> c_str blk = Inr (f (Suc t))"
    if t: "t < k" for t
  proof -
    have e: "(Suc ?w + t) mod sz = (start + Suc t) mod sz"
      by (metis add_Suc add_Suc_right mod_add_left_eq)
    from t Suc.prems(1) have "start < start + Suc t" "start + Suc t - start < sz" by simp_all
    from mod_neq_window [OF this] have "?w \<noteq> (start + Suc t) mod sz" .
    moreover from Suc.prems(4) [rule_format, of "Suc t"] t
    have "\<exists>blk. slots ! ((start + Suc t) mod sz) = Some blk \<and> c_str blk = Inr (f (Suc t))"
      by simp
    ultimately show ?thesis using e by simp
  qed
  with Suc.IH [where start = "Suc ?w" and slots = ?slots and f = "\<lambda>t. f (Suc t)"] Suc.prems(1,2) wlt
  obtain slots' where
    r: "print_slots k (int (Suc ?w)) (int sz) ?slots = Inr (concat (map (\<lambda>t. f (Suc t)) [0 ..< k]), slots')"
    by auto
  have m: "map f [0 ..< Suc k] = f 0 # map (\<lambda>t. f (Suc t)) [0 ..< k]"
    by (simp add: upt_conv_Cons map_Suc_upt [symmetric] del: upt_Suc)
  have "print_slots (Suc k) (int start) (int sz) slots
          = Inr (f 0 @ concat (map (\<lambda>t. f (Suc t)) [0 ..< k]), slots')"
    using w wlt Suc.prems(2) blk r
    by (simp add: Let_def add.commute del: upt_Suc)
  with m show ?case by (simp del: upt_Suc)
qed

lemma print_ring_buffer_stores:
  assumes "stores c rs r" and "0 < c"
  shows "print_ring_buffer r = Inr (concat (drop (length rs - c) rs), r\<lparr>line := None\<rparr>)"
proof -
  let ?n = "length rs"
  from assms(1) obtain slots where
    cap: "capacity r = int c" and sz: "size_rb r = int (min ?n c)"
    and li: "latest_index r = (if rs = [] then int c else int ((?n - 1) mod c))"
    and sl: "line r = Some slots" "length slots = c"
    and st: "\<forall>j < ?n. ?n - c \<le> j \<longrightarrow>
                  (\<exists>blk. slots ! (j mod c) = Some blk \<and> c_str blk = Inr (rs ! j))"
    by (auto simp: stores_def)
  let ?k = "min ?n c"
  let ?f = "\<lambda>t. rs ! (?n - c + t)"
  have out: "concat (map ?f [0 ..< ?k]) = concat (drop (?n - c) rs)"
  proof -
    have "map ?f [0 ..< ?k] = drop (?n - c) rs"
      by (rule nth_equalityI) auto
    then show ?thesis by simp
  qed
  have "\<exists>slots'. print_slots (nat (size_rb r)) (latest_index r + 1) (size_rb r) slots
          = Inr (concat (map ?f [0 ..< ?k]), slots')"
  proof (cases "rs = []")
    case True
    with sz show ?thesis by simp
  next
    case False
    then have npos: "0 < ?n" by simp
    let ?start = "Suc ((?n - 1) mod c)"
    have s1: "?start \<le> ?k"
    proof (cases "?n \<le> c")
      case True
      have "(?n - 1) mod c \<le> ?n - 1" by (rule mod_less_eq_dividend)
      with npos have "Suc ((?n - 1) mod c) \<le> ?n" by linarith
      with True show ?thesis by (simp only: min_absorb1)
    next
      case False
      with assms(2) have "(?n - 1) mod c < c" by simp
      with False show ?thesis by (simp add: min_def)
    qed
    have "\<exists>blk. slots ! ((?start + t) mod ?k) = Some blk \<and> c_str blk = Inr (?f t)"
      if t: "t < ?k" for t
    proof (cases "?n \<le> c")
      case True
      from True npos have "?n - 1 < c" by arith
      then have "(?n - 1) mod c = ?n - 1" by (rule mod_less)
      with True npos have "?start = ?n" "?k = ?n" by (simp_all add: min_def)
      with t have e: "(?start + t) mod ?k = t" by simp
      from t True st have "\<exists>blk. slots ! (t mod c) = Some blk \<and> c_str blk = Inr (rs ! t)"
        by simp
      with e t True show ?thesis by simp
    next
      case False
      then have k: "?k = c" by (simp add: min_def)
      have "(?start + t) mod c = (?n - 1 + Suc t) mod c"
        by (metis add_Suc add_Suc_right mod_add_left_eq)
      also have "\<dots> = (?n - c + t + c) mod c" using False npos by simp
      also have "\<dots> = (?n - c + t) mod c" by simp
      finally have e: "(?start + t) mod ?k = (?n - c + t) mod c" using k by simp
      from t k False have "?n - c + t < ?n" "?n - c \<le> ?n - c + t" by simp_all
      with st have "\<exists>blk. slots ! ((?n - c + t) mod c) = Some blk
          \<and> c_str blk = Inr (rs ! (?n - c + t))" by blast
      with e show ?thesis by simp
    qed
    with print_slots_cycle [of ?k ?k slots ?start ?f] s1 sl(2)
    obtain slots' where
      "print_slots ?k (int ?start) (int ?k) slots = Inr (concat (map ?f [0 ..< ?k]), slots')"
      by auto
    with sz li False show ?thesis by (simp add: add.commute)
  qed
  with sl out show ?thesis
    by (auto simp: print_ring_buffer_def)
qed

lemma ring_buffer_init_stores:
  "ring_buffer_init (int c) = Inr r \<Longrightarrow> stores c [] r"
  by (auto simp: ring_buffer_init_def stores_def)

lemma enqueue_all_stores:
  "stores c rs r \<Longrightarrow> 0 < c \<Longrightarrow> enqueue_all r ls = Inr r'
     \<Longrightarrow> stores c (rs @ map (takeWhile (\<lambda>c. c \<noteq> NUL)) ls) r'"
proof (induction ls arbitrary: rs r)
  case Nil
  then show ?case by simp
next
  case (Cons l ls)
  from Cons.prems(3) obtain r1 b where
    e: "enqueue r (l @ [NUL]) (int (length l) + 1) = Inr (r1, b)"
    and a: "enqueue_all r1 ls = Inr r'"
    by (auto split: sum.splits)
  from enqueue_stores [OF Cons.prems(1,2) e]
  have "stores c (rs @ [takeWhile (\<lambda>c. c \<noteq> NUL) l]) r1" .
  from Cons.IH [OF this Cons.prems(2) a] show ?case by simp
qed

lemma drain_after_last_records:
  assumes "0 < cap" and "drain_after cap ls = Inr out"
  shows "out = concat (drop (length ls - nat cap) (map (takeWhile (\<lambda>c. c \<noteq> NUL)) ls))"
proof -
  from zero_less_imp_eq_int [OF assms(1)] obtain c where c: "cap = int c" "0 < c"
    by blast
  from assms(2) obtain r r' where
    i: "ring_buffer_init cap = Inr r" and e: "enqueue_all r ls = Inr r'"
    and p: "\<exists>r''. print_ring_buffer r' = Inr (out, r'')"
    by (auto simp: drain_after_def split: sum.splits)
  from i c have "stores c [] r" by (simp add: ring_buffer_init_stores)
  from enqueue_all_stores [OF this c(2) e]
  have "stores c (map (takeWhile (\<lambda>c. c \<noteq> NUL)) ls) r'" by simp
  from print_ring_buffer_stores [OF this c(2)] p c show ?thesis by auto
qed


lemma enqueue_all_long_records:
  "stores c rs r \<Longrightarrow> 0 < c \<Longrightarrow> \<forall>l \<in> set ls. sizeof_ptr \<le> int (length l)
     \<Longrightarrow> \<exists>r'. enqueue_all r ls = Inr r'"
proof (induction ls arbitrary: rs r)
  case Nil
  then show ?case by simp
next
  case (Cons l ls)
  from enqueue_long_record [OF Cons.prems(1,2), of l] Cons.prems(3) obtain r1 b where
    e: "enqueue r (l @ [NUL]) (int (length l) + 1) = Inr (r1, b)" by auto
  from enqueue_stores [OF Cons.prems(1,2) e]
  have "stores c (rs @ [takeWhile (\<lambda>c. c \<noteq> NUL) l]) r1" .
  from Cons.IH [OF this Cons.prems(2)] Cons.prems(3) e show ?case by simp
qed

lemma drain_after_long_records:
  assumes "0 < cap" and "\<forall>l \<in> set ls. sizeof_ptr \<le> int (length l)"
  shows "drain_after cap ls
           = Inr (concat (drop (length ls - nat cap) (map (takeWhile (\<lambda>c. c \<noteq> NUL)) ls)))"
proof -
  from zero_less_imp_eq_int [OF assms(1)] obtain c where c: "cap = int c" "0 < c"
    by blast
  then obtain r where i: "ring_buffer_init cap = Inr r"
    by (simp add: ring_buffer_init_def)
  with c have s: "stores c [] r" by (simp add: ring_buffer_init_stores)
  from enqueue_all_long_records [OF s c(2) assms(2)] obtain r' where
    e: "enqueue_all r ls = Inr r'" by blast
  from enqueue_all_stores [OF s c(2) e]
  have "stores c (map (takeWhile (\<lambda>c. c \<noteq> NUL)) ls) r'" by simp
  from print_ring_buffer_stores [OF this c(2)] i e c show ?thesis
    by (simp add: drain_after_def)
qed

subsection \<open>What a record does to its target\<close>

lemma evolves_refl: "evolves p fd fd"
  by (simp add: evolves_def)

lemma evolves_trans: "evolves p a b \<Longrightarrow> evolves p b c \<Longrightarrow> evolves p a c"
  by (auto simp: evolves_def)

lemma evolves_fp: "evolves p fd (fd'\<lparr>fp := x\<rparr>) = evolves p fd fd'"
  by (simp add: evolves_def target_ok_def)

lemma evolves_fp_self: "evolves p fd (fd\<lparr>fp := x\<rparr>)"
  by (simp add: evolves_fp evolves_refl)

lemma enqueue_line: "enqueue r ln len = Inr (r', ln') \<Longrightarrow> line r \<noteq> None \<and> line r' \<noteq> None"
  by (auto simp: enqueue_def Let_def split: option.splits if_splits sum.splits)

lemma handle_content_fields:
  assumes "handle_content p i buf rc (fd, pr) = Inr (buf', fd', pr')"
  shows "end_reached fd' = end_reached fd \<and> delim fd' = delim fd
    \<and> drain_calls fd' = drain_calls fd \<and> fp fd' = fp fd
    \<and> (end_reached fd \<longrightarrow> rb fd' = rb fd)
    \<and> (line (rb fd') = None) = (line (rb fd) = None)"
  using assms
  by (auto simp: handle_content_def Let_def dest: enqueue_line split: if_splits sum.splits)

lemma print_ring_buffer_line: "print_ring_buffer r = Inr (out, r') \<Longrightarrow> line r' = None"
  by (auto simp: print_ring_buffer_def split: option.splits sum.splits)

lemma boundary_transition_fields:
  assumes "boundary_transition p (fd, pr) = Inr (fd', pr')"
  shows "if end_reached fd then fd' = fd \<and> pr' = pr
         else end_reached fd' \<and> delim fd' = end_marker p
            \<and> drain_calls fd' = drain_calls fd + 1 \<and> line (rb fd') = None \<and> fp fd' = fp fd"
  using assms
  by (auto simp: boundary_transition_def dest: print_ring_buffer_line split: if_splits sum.splits)

lemma end_marker_check_fields:
  assumes "end_marker_check p buf rc cursor (fd, pr) = Inr (c, fd', pr')"
  shows "if c = None \<or> end_reached fd then fd' = fd
         else end_reached fd' \<and> delim fd' = end_marker p
            \<and> drain_calls fd' = drain_calls fd + 1 \<and> line (rb fd') = None \<and> fp fd' = fp fd"
proof (cases c)
  case None
  with assms show ?thesis
    by (auto simp: end_marker_check_def split: if_splits sum.splits)
next
  case (Some a)
  with assms have "boundary_transition p (fd, pr) = Inr (fd', pr')"
    by (auto simp: end_marker_check_def split: if_splits sum.splits)
  from boundary_transition_fields [OF this] Some show ?thesis by auto
qed

lemma loop_body_evolves:
  assumes "loop_body p i chunk cursor (fd, pr) = Inr (c, fd', pr')"
  shows "evolves p fd fd'"
proof -
  from assms obtain buf' fd1 pr1 where
    h: "handle_content p i (chunk @ [NUL]) (int (length chunk)) (fd, pr) = Inr (buf', fd1, pr1)"
    and e: "end_marker_check p buf' (int (length chunk)) cursor (fd1, pr1) = Inr (c, fd', pr')"
    by (auto simp: loop_body_def Let_def split: sum.splits)
  note hf = handle_content_fields [OF h]
  note ef = end_marker_check_fields [OF e]
  have a: "evolves p fd fd1"
    using hf by (auto simp: evolves_def target_ok_def)
  have b: "evolves p fd1 fd'"
    using ef by (auto simp: evolves_def target_ok_def split: if_splits)
  from a b show ?thesis by (rule evolves_trans)
qed

lemma read_loop_evolves:
  "read_loop p i content cursor s = Inr (cursor', s') \<Longrightarrow> evolves p (fst s) (fst s')"
proof (induction p i content cursor s rule: read_loop.induct)
  case (1 p i content cursor s)
  let ?chunk = "getdelim content cursor (delim (fst s))"
  show ?case
  proof (cases "?chunk = []")
    case True
    with "1.prems" show ?thesis
      by (subst (asm) read_loop.simps) (simp add: evolves_refl)
  next
    case False
    with "1.prems" obtain c s1 where
      lb: "loop_body p i ?chunk (cursor + length ?chunk) s = Inr (c, s1)"
      by (subst (asm) read_loop.simps) (auto simp: Let_def split: sum.splits)
    then have ev: "evolves p (fst s) (fst s1)"
      using loop_body_evolves [of p i ?chunk "cursor + length ?chunk" "fst s" "snd s" c "fst s1" "snd s1"]
      by simp
    show ?thesis
    proof (cases c)
      case None
      with "1.prems" False lb have "read_loop p i content (cursor + length ?chunk) s1 = Inr (cursor', s')"
        by (subst (asm) read_loop.simps) (simp add: Let_def)
      with "1.IH" [OF refl False lb [unfolded None]] have "evolves p (fst s1) (fst s')"
        by simp
      with ev show ?thesis by (rule evolves_trans)
    next
      case (Some a)
      with "1.prems" False lb have "s' = s1"
        by (subst (asm) read_loop.simps) (simp add: Let_def)
      with ev show ?thesis by simp
    qed
  qed
qed


lemma evolves_all_refl: "list_all2 (evolves p) fa fa"
  by (simp add: list_all2_refl evolves_refl)

lemma evolves_all_trans:
  assumes "list_all2 (evolves p) a b" and "list_all2 (evolves p) b c"
  shows "list_all2 (evolves p) a c"
  by (rule list_all2_trans [OF _ assms]) (rule evolves_trans)

lemma poll_file_evolves:
  assumes "poll_file p env i (fa, pr) = Inr (fa', pr')"
  shows "list_all2 (evolves p) fa fa'"
proof -
  from assms obtain cursor cursor' fd' where
    i: "i < length fa"
    and r: "read_loop p i (content_of env (files p ! i)) cursor
              (fa ! i, pr\<lparr>print_file_name := need_to_print_file_name p\<rparr>) = Inr (cursor', fd', pr')"
    and f: "fa' = list_update fa i (fd'\<lparr>fp := Some cursor'\<rparr>)"
    by (auto simp: poll_file_def split: if_splits option.splits sum.splits)
  from read_loop_evolves [OF r] have "evolves p (fa ! i) (fd'\<lparr>fp := Some cursor'\<rparr>)"
    by (simp add: evolves_fp)
  with i f show ?thesis
    by (auto simp: list_all2_conv_all_nth nth_list_update evolves_refl)
qed

lemma poll_files_evolves:
  "poll_files p env is st = Inr st' \<Longrightarrow> list_all2 (evolves p) (fst st) (fst st')"
proof (induction "is" arbitrary: st)
  case Nil
  then show ?case by (simp add: list_all2_refl evolves_refl)
next
  case (Cons i "is")
  from Cons.prems obtain st1 where
    a: "poll_file p env i st = Inr st1" and b: "poll_files p env is st1 = Inr st'"
    by (auto split: sum.splits)
  from a have "list_all2 (evolves p) (fst st) (fst st1)"
    using poll_file_evolves [of p env i "fst st" "snd st" "fst st1" "snd st1"] by simp
  moreover from Cons.IH [OF b] have "list_all2 (evolves p) (fst st1) (fst st')" .
  ultimately show ?case
    by (rule evolves_all_trans)
qed

lemma close_files_evolves:
  "close_files fa n = Inr fa' \<Longrightarrow> list_all2 (evolves p) fa fa'"
proof (induction fa n arbitrary: fa' rule: close_files.induct)
  case (1 fa)
  then show ?case by (simp add: list_all2_refl evolves_refl)
next
  case (2 fa n)
  from "2.prems" obtain c where
    n: "n < length fa" and c: "fp (fa ! n) = Some c"
    and r: "close_files (fa[n := (fa ! n)\<lparr>fp := None\<rparr>]) n = Inr fa'"
    by (auto split: if_splits option.splits)
  have "list_all2 (evolves p) fa (fa[n := (fa ! n)\<lparr>fp := None\<rparr>])"
    using n by (auto simp: list_all2_conv_all_nth nth_list_update evolves_refl evolves_fp)
  moreover have "list_all2 (evolves p) (fa[n := (fa ! n)\<lparr>fp := None\<rparr>]) fa'"
    using "2.IH" n c r by simp
  ultimately show ?case
    by (rule evolves_all_trans)
qed

lemma open_files_from_evolves:
  "open_files_from env filenames n i fa = Inr (b, fa') \<Longrightarrow> list_all2 (evolves p) fa fa'"
proof (induction env filenames n i fa rule: open_files_from.induct)
  case (1 env filenames n i fa)
  show ?case
  proof (cases "i < n")
    case False
    with "1.prems" show ?thesis
      by (subst (asm) open_files_from.simps) (simp add: list_all2_refl evolves_refl)
  next
    case True
    with "1.prems" have len: "i < length fa" "i < length filenames"
      by (subst (asm) open_files_from.simps, auto split: if_splits)+
    show ?thesis
    proof (cases "fp (fa ! i) \<noteq> None")
      case isopen: True
      with "1.prems" True len have "open_files_from env filenames n (Suc i) fa = Inr (b, fa')"
        by (subst (asm) open_files_from.simps) simp
      with "1.IH"(1) True len isopen show ?thesis by simp
    next
      case isclosed: False
      show ?thesis
      proof (cases "fopen env (filenames ! i)")
        case None
        with "1.prems" True len isclosed have "close_files fa i = Inr fa'"
          by (subst (asm) open_files_from.simps) (auto split: sum.splits)
        then show ?thesis by (rule close_files_evolves)
      next
        case (Some c)
        let ?fa = "fa[i := (fa ! i)\<lparr>fp := Some c\<rparr>]"
        from "1.prems" True len isclosed Some
        have "open_files_from env filenames n (Suc i) ?fa = Inr (b, fa')"
          by (subst (asm) open_files_from.simps) simp
        with "1.IH"(2) True len isclosed Some have r: "list_all2 (evolves p) ?fa fa'" by simp
        have "list_all2 (evolves p) fa ?fa"
          using len by (auto simp: list_all2_conv_all_nth nth_list_update evolves_refl evolves_fp)
        from this r show ?thesis
          by (rule evolves_all_trans)
      qed
    qed
  qed
qed

lemma poll_rounds_evolves:
  "poll_rounds p envs st = Inr (left, st') \<Longrightarrow> list_all2 (evolves p) (fst st) (fst st')"
proof (induction envs arbitrary: st)
  case Nil
  then show ?case by (simp add: list_all2_refl evolves_refl)
next
  case (Cons env envs)
  from Cons.prems obtain opened fa where
    o: "open_files env (files p) (num_files p) (fst st) = Inr (opened, fa)"
    by (auto split: sum.splits)
  then have ev1: "list_all2 (evolves p) (fst st) fa"
    by (auto simp: open_files_def dest: open_files_from_evolves)
  show ?case
  proof (cases opened)
    case False
    with Cons.prems o ev1 show ?thesis by auto
  next
    case True
    with Cons.prems o obtain st1 where
      pf: "poll_files p env [0 ..< num_files p] (fa, snd st) = Inr st1"
      by (auto split: sum.splits)
    from poll_files_evolves [OF pf] have ev2: "list_all2 (evolves p) fa (fst st1)" by simp
    have ev12: "list_all2 (evolves p) (fst st) (fst st1)"
      using ev1 ev2 by (rule evolves_all_trans)
    show ?thesis
    proof (cases "stop env")
      case True
      with Cons.prems o \<open>opened\<close> pf ev12 show ?thesis by auto
    next
      case False
      with Cons.prems o \<open>opened\<close> pf have "poll_rounds p envs st1 = Inr (left, st')" by simp
      from ev12 Cons.IH [OF this] show ?thesis
        by (rule evolves_all_trans)
    qed
  qed
qed

lemma init_files_ok:
  "init_files p = Inr fa \<Longrightarrow> fd \<in> set fa \<Longrightarrow> target_ok p fd"
  by (auto simp: init_files_def target_ok_def ring_buffer_init_def split: if_splits sum.splits)

lemma evolves_all_ok:
  assumes "list_all2 (evolves p) fa fa'" and "\<forall>fd \<in> set fa. target_ok p fd"
  shows "\<forall>fd \<in> set fa'. target_ok p fd"
proof
  fix fd assume "fd \<in> set fa'"
  then obtain j where j: "j < length fa'" "fd = fa' ! j" by (auto simp: in_set_conv_nth)
  with assms(1) have "j < length fa" "evolves p (fa ! j) fd"
    by (auto simp: list_all2_conv_all_nth)
  with assms(2) show "target_ok p fd" by (auto simp: evolves_def)
qed

lemma follow_ok:
  assumes "follow p envs = Inr (left, fa, pr)" and "fd \<in> set fa"
  shows "target_ok p fd"
proof -
  from assms(1) obtain fa0 where
    i: "init_files p = Inr fa0" and r: "poll_rounds p envs (fa0, init_printer) = Inr (left, fa, pr)"
    by (auto simp: follow_def split: sum.splits)
  from poll_rounds_evolves [OF r] have "list_all2 (evolves p) fa0 fa" by simp
  moreover from i have "\<forall>fd \<in> set fa0. target_ok p fd" by (auto dest: init_files_ok)
  ultimately show ?thesis using assms(2) evolves_all_ok by blast
qed


lemma loop_body_cases:
  assumes "loop_body p i chunk cursor (fd, pr) = Inr (c, fd', pr')" and "chunk \<noteq> []"
  shows "\<exists>fd1 pr1.
      handle_content p i (chunk @ [NUL]) (int (length chunk)) (fd, pr) = Inr (chunk @ [NUL], fd1, pr1)
      \<and> (if last chunk = end_marker p
         then boundary_transition p (fd1, pr1) = Inr (fd', pr') \<and> c \<noteq> None
         else fd' = fd1 \<and> pr' = pr1 \<and> c = None)"
proof -
  from assms(1) obtain buf' fd1 pr1 where
    h: "handle_content p i (chunk @ [NUL]) (int (length chunk)) (fd, pr) = Inr (buf', fd1, pr1)"
    and e: "end_marker_check p buf' (int (length chunk)) cursor (fd1, pr1) = Inr (c, fd', pr')"
    by (auto simp: loop_body_def Let_def split: sum.splits)
  from h have b: "buf' = chunk @ [NUL]" by (rule handle_content_buf)
  have l: "(chunk @ [NUL]) ! nat (int (length chunk) - 1) = last chunk"
    using assms(2) by (simp add: nth_append last_conv_nth nat_diff_distrib')
  have "if last chunk = end_marker p
        then boundary_transition p (fd1, pr1) = Inr (fd', pr') \<and> c \<noteq> None
        else fd' = fd1 \<and> pr' = pr1 \<and> c = None"
    using e b l by (auto simp: end_marker_check_def split: sum.splits if_splits)
  with h b show ?thesis by blast
qed

lemma loop_body_end_reached:
  assumes "loop_body p i chunk cursor (fd, pr) = Inr (c, fd', pr')" and "chunk \<noteq> []"
  shows "end_reached fd' = (end_reached fd \<or> last chunk = end_marker p)"
proof -
  from loop_body_cases [OF assms] obtain fd1 pr1 where
    h: "handle_content p i (chunk @ [NUL]) (int (length chunk)) (fd, pr) = Inr (chunk @ [NUL], fd1, pr1)"
    and m: "if last chunk = end_marker p
            then boundary_transition p (fd1, pr1) = Inr (fd', pr') \<and> c \<noteq> None
            else fd' = fd1 \<and> pr' = pr1 \<and> c = None"
    by blast
  note hf = handle_content_fields [OF h]
  show ?thesis
  proof (cases "last chunk = end_marker p")
    case True
    with m have "boundary_transition p (fd1, pr1) = Inr (fd', pr')" by simp
    from boundary_transition_fields [OF this] hf True show ?thesis
      by (auto split: if_splits)
  next
    case False
    with m hf show ?thesis by simp
  qed
qed

lemma loop_body_drains:
  assumes "loop_body p i chunk cursor (fd, pr) = Inr (c, fd', pr')" and "chunk \<noteq> []"
    and "\<not> end_reached fd" and "last chunk = end_marker p"
  shows "\<exists>fd1 pr1 out. handle_content p i (chunk @ [NUL]) (int (length chunk)) (fd, pr)
             = Inr (chunk @ [NUL], fd1, pr1)
           \<and> print_ring_buffer (rb fd1) = Inr (out, rb fd') \<and> stdout pr' = stdout pr1 @ out
           \<and> end_reached fd' \<and> delim fd' = end_marker p \<and> drain_calls fd' = drain_calls fd + 1"
proof -
  from loop_body_cases [OF assms(1,2)] assms(4) obtain fd1 pr1 where
    h: "handle_content p i (chunk @ [NUL]) (int (length chunk)) (fd, pr) = Inr (chunk @ [NUL], fd1, pr1)"
    and b: "boundary_transition p (fd1, pr1) = Inr (fd', pr')"
    by auto
  note hf = handle_content_fields [OF h]
  from hf assms(3) have "\<not> end_reached fd1" by simp
  with b obtain out where "print_ring_buffer (rb fd1) = Inr (out, rb fd')"
    "stdout pr' = stdout pr1 @ out" "end_reached fd'" "delim fd' = end_marker p"
    "drain_calls fd' = drain_calls fd1 + 1"
    by (auto simp: boundary_transition_def split: sum.splits)
  with h hf show ?thesis by auto
qed

subsection \<open>The poll loop\<close>

text \<open>
  C2. A run is observed for some rounds and then for some more. For every target:
  \<^verbatim>\<open>print_ring_buffer\<close> was called at most once, and only if the target is past the
  boundary; a target past the boundary stays there in all later rounds, with no further
  drain and its buffer untouched; a target that passes the boundary in the later
  rounds was drained once, and reads up to the marker from then on. For one record: the
  target is past the boundary after it if and only if it was before, or the last byte
  of the record is the marker; and if the record takes the target past the boundary,
  what \<^verbatim>\<open>print_ring_buffer\<close> wrote for the buffer is appended to stdout.
\<close>

theorem boundary_transition_once:
  assumes "follow p envs = Inr (False, fa, pr)"
    and "poll_rounds p envs' (fa, pr) = Inr (left, fa', pr')"
    and "i < length fa"
  shows "drain_calls (fa ! i) \<le> 1
    \<and> (drain_calls (fa ! i) = 1 \<longrightarrow> end_reached (fa ! i))
    \<and> (end_reached (fa ! i) \<longrightarrow>
         end_reached (fa' ! i) \<and> drain_calls (fa' ! i) = drain_calls (fa ! i)
         \<and> rb (fa' ! i) = rb (fa ! i))
    \<and> (\<not> end_reached (fa ! i) \<and> end_reached (fa' ! i) \<longrightarrow>
         drain_calls (fa' ! i) = 1 \<and> delim (fa' ! i) = end_marker p
         \<and> line (rb (fa' ! i)) = None)
    \<and> (\<forall>chunk cursor fd pr1 c fd' pr1'.
         chunk \<noteq> [] \<and> loop_body p i chunk cursor (fd, pr1) = Inr (c, fd', pr1') \<longrightarrow>
           end_reached fd' = (end_reached fd \<or> last chunk = end_marker p)
           \<and> (\<not> end_reached fd \<and> last chunk = end_marker p \<longrightarrow>
                delim fd' = end_marker p \<and> drain_calls fd' = drain_calls fd + 1
                \<and> (\<exists>fd1 pr2 out.
                      handle_content p i (chunk @ [NUL]) (int (length chunk)) (fd, pr1)
                        = Inr (chunk @ [NUL], fd1, pr2)
                      \<and> print_ring_buffer (rb fd1) = Inr (out, rb fd')
                      \<and> stdout pr1' = stdout pr2 @ out)))"
proof -
  from assms(3) have mem: "fa ! i \<in> set fa" by simp
  from follow_ok [OF assms(1) mem] have ok: "target_ok p (fa ! i)" .
  from poll_rounds_evolves [OF assms(2)] assms(3)
  have ev: "evolves p (fa ! i) (fa' ! i)"
    by (auto simp: list_all2_conv_all_nth)
  with ok have ok': "target_ok p (fa' ! i)" by (simp add: evolves_def)
  have 1: "drain_calls (fa ! i) \<le> 1 \<and> (drain_calls (fa ! i) = 1 \<longrightarrow> end_reached (fa ! i))"
    using ok by (auto simp: target_ok_def split: if_splits)
  have 2: "end_reached (fa ! i) \<longrightarrow>
         end_reached (fa' ! i) \<and> drain_calls (fa' ! i) = drain_calls (fa ! i)
         \<and> rb (fa' ! i) = rb (fa ! i)"
    using ev by (simp add: evolves_def)
  have 3: "\<not> end_reached (fa ! i) \<and> end_reached (fa' ! i) \<longrightarrow>
         drain_calls (fa' ! i) = 1 \<and> delim (fa' ! i) = end_marker p
         \<and> line (rb (fa' ! i)) = None"
    using ok ok' by (auto simp: target_ok_def split: if_splits)
  have 4: "end_reached fd' = (end_reached fd \<or> last chunk = end_marker p)
           \<and> (\<not> end_reached fd \<and> last chunk = end_marker p \<longrightarrow>
                delim fd' = end_marker p \<and> drain_calls fd' = drain_calls fd + 1
                \<and> (\<exists>fd1 pr2 out.
                      handle_content p i (chunk @ [NUL]) (int (length chunk)) (fd, pr1)
                        = Inr (chunk @ [NUL], fd1, pr2)
                      \<and> print_ring_buffer (rb fd1) = Inr (out, rb fd')
                      \<and> stdout pr1' = stdout pr2 @ out))"
    if "chunk \<noteq> []" and "loop_body p i chunk cursor (fd, pr1) = Inr (c, fd', pr1')"
    for chunk cursor fd pr1 c fd' pr1'
    using loop_body_end_reached [OF that(2,1)] loop_body_drains [OF that(2,1)] by blast
  from 1 2 3 4 show ?thesis by blast
qed

theorem boundary_transition_once_witness:
  "follow ex_params [ex_round1] = Inr (False,
      [\<lparr>fp = Some 2,
        rb = \<lparr>latest_index = 0, capacity = 2, size_rb = 1,
               line = Some [Some (''a'' @ [CHR 0x0A, NUL]), None]\<rparr>,
        end_reached = False, delim = CHR 0x0A, drain_calls = 0\<rparr>],
      \<lparr>stdout = [], last_file_printed = - 1, print_file_name = False\<rparr>)
   \<and> poll_rounds ex_params [ex_round2]
       ([\<lparr>fp = Some 2,
          rb = \<lparr>latest_index = 0, capacity = 2, size_rb = 1,
                 line = Some [Some (''a'' @ [CHR 0x0A, NUL]), None]\<rparr>,
          end_reached = False, delim = CHR 0x0A, drain_calls = 0\<rparr>],
        \<lparr>stdout = [], last_file_printed = - 1, print_file_name = False\<rparr>)
     = Inr (False,
        [\<lparr>fp = Some 2,
          rb = \<lparr>latest_index = 0, capacity = 2, size_rb = 1, line = None\<rparr>,
          end_reached = True, delim = NUL, drain_calls = 1\<rparr>],
        \<lparr>stdout = ''a'' @ [CHR 0x0A], last_file_printed = - 1, print_file_name = False\<rparr>)
   \<and> loop_body ex_params 0 [NUL] 3
       (\<lparr>fp = Some 2,
          rb = \<lparr>latest_index = 0, capacity = 2, size_rb = 1,
                 line = Some [Some (''a'' @ [CHR 0x0A, NUL]), None]\<rparr>,
          end_reached = False, delim = CHR 0x0A, drain_calls = 0\<rparr>,
        \<lparr>stdout = [], last_file_printed = - 1, print_file_name = False\<rparr>)
     = Inr (Some 2,
        \<lparr>fp = Some 2,
          rb = \<lparr>latest_index = 0, capacity = 2, size_rb = 1, line = None\<rparr>,
          end_reached = True, delim = NUL, drain_calls = 1\<rparr>,
        \<lparr>stdout = ''a'' @ [CHR 0x0A], last_file_printed = - 1, print_file_name = False\<rparr>)"
proof -
  let ?fd = "\<lparr>fp = Some 2,
        rb = \<lparr>latest_index = 0, capacity = 2, size_rb = 1,
               line = Some [Some (''a'' @ [CHR 0x0A, NUL]), None]\<rparr>,
        end_reached = False, delim = CHR 0x0A, drain_calls = 0\<rparr>"
  let ?pr = "\<lparr>stdout = [], last_file_printed = - 1, print_file_name = False\<rparr>"
  let ?fd' = "\<lparr>fp = Some 2,
          rb = \<lparr>latest_index = 0, capacity = 2, size_rb = 1, line = None\<rparr>,
          end_reached = True, delim = NUL, drain_calls = 1\<rparr>"
  let ?pr' = "\<lparr>stdout = ''a'' @ [CHR 0x0A], last_file_printed = - 1, print_file_name = False\<rparr>"
  have a: "follow ex_params [ex_round1] = Inr (False, [?fd], ?pr)"
    by code_simp
  have b: "poll_rounds ex_params [ex_round2] ([?fd], ?pr) = Inr (False, [?fd'], ?pr')"
    by code_simp
  have c: "(0::nat) < length [?fd]" by simp
  have d: "loop_body ex_params 0 [NUL] 3 (?fd, ?pr) = Inr (Some 2, ?fd', ?pr')"
    by code_simp
  from boundary_transition_once [OF a b c] a b d show ?thesis by simp
qed

text \<open>
  C4. A record whose first byte is the marker is neither printed nor enqueued, before
  or after the boundary: the first part of the loop body leaves the target and stdout
  as they are, no header is printed, and at the end of the body either the buffer and
  stdout are unchanged, or (the record ends with the marker and the target was before
  the boundary) stdout got the drain of the buffer as it was before the record.
\<close>

theorem filler_record_suppressed:
  assumes "chunk \<noteq> []" and "hd chunk = end_marker p"
    and "loop_body p i chunk cursor (fd, pr) = Inr (c, fd', pr')"
  shows "handle_content p i (chunk @ [NUL]) (int (length chunk)) (fd, pr)
           = Inr (chunk @ [NUL], fd, pr)
    \<and> last_file_printed pr' = last_file_printed pr
    \<and> (if end_reached fd \<or> last chunk \<noteq> end_marker p
       then rb fd' = rb fd \<and> stdout pr' = stdout pr
       else \<exists>out. print_ring_buffer (rb fd) = Inr (out, rb fd') \<and> stdout pr' = stdout pr @ out)"
proof -
  from assms(1,2) have "(chunk @ [NUL]) ! 0 = end_marker p"
    by (cases chunk) simp_all
  then have h: "handle_content p i (chunk @ [NUL]) (int (length chunk)) (fd, pr)
           = Inr (chunk @ [NUL], fd, pr)"
    by (simp add: handle_content_def)
  from loop_body_cases [OF assms(3,1)] h
  have m: "if last chunk = end_marker p
           then boundary_transition p (fd, pr) = Inr (fd', pr') \<and> c \<noteq> None
           else fd' = fd \<and> pr' = pr \<and> c = None"
    by simp
  have "last_file_printed pr' = last_file_printed pr
    \<and> (if end_reached fd \<or> last chunk \<noteq> end_marker p
       then rb fd' = rb fd \<and> stdout pr' = stdout pr
       else \<exists>out. print_ring_buffer (rb fd) = Inr (out, rb fd') \<and> stdout pr' = stdout pr @ out)"
    using m by (auto simp: boundary_transition_def split: if_splits sum.splits)
  with h show ?thesis by simp
qed

theorem filler_record_suppressed_witness:
  "[NUL] \<noteq> [] \<and> hd [NUL] = end_marker ex_params
   \<and> loop_body ex_params 0 [NUL] 3
       (\<lparr>fp = Some 2,
          rb = \<lparr>latest_index = 0, capacity = 2, size_rb = 1,
                 line = Some [Some (''a'' @ [CHR 0x0A, NUL]), None]\<rparr>,
          end_reached = False, delim = CHR 0x0A, drain_calls = 0\<rparr>,
        \<lparr>stdout = [], last_file_printed = - 1, print_file_name = False\<rparr>)
     = Inr (Some 2,
        \<lparr>fp = Some 2,
          rb = \<lparr>latest_index = 0, capacity = 2, size_rb = 1, line = None\<rparr>,
          end_reached = True, delim = NUL, drain_calls = 1\<rparr>,
        \<lparr>stdout = ''a'' @ [CHR 0x0A], last_file_printed = - 1, print_file_name = False\<rparr>)
   \<and> handle_content ex_params 0 ([NUL] @ [NUL]) (int (length [NUL]))
       (\<lparr>fp = Some 2,
          rb = \<lparr>latest_index = 0, capacity = 2, size_rb = 1,
                 line = Some [Some (''a'' @ [CHR 0x0A, NUL]), None]\<rparr>,
          end_reached = False, delim = CHR 0x0A, drain_calls = 0\<rparr>,
        \<lparr>stdout = [], last_file_printed = - 1, print_file_name = False\<rparr>)
     = Inr ([NUL] @ [NUL],
        \<lparr>fp = Some 2,
          rb = \<lparr>latest_index = 0, capacity = 2, size_rb = 1,
                 line = Some [Some (''a'' @ [CHR 0x0A, NUL]), None]\<rparr>,
          end_reached = False, delim = CHR 0x0A, drain_calls = 0\<rparr>,
        \<lparr>stdout = [], last_file_printed = - 1, print_file_name = False\<rparr>)"
proof -
  let ?fd = "\<lparr>fp = Some 2,
        rb = \<lparr>latest_index = 0, capacity = 2, size_rb = 1,
               line = Some [Some (''a'' @ [CHR 0x0A, NUL]), None]\<rparr>,
        end_reached = False, delim = CHR 0x0A, drain_calls = 0\<rparr>"
  let ?pr = "\<lparr>stdout = [], last_file_printed = - 1, print_file_name = False\<rparr>"
  let ?fd' = "\<lparr>fp = Some 2,
          rb = \<lparr>latest_index = 0, capacity = 2, size_rb = 1, line = None\<rparr>,
          end_reached = True, delim = NUL, drain_calls = 1\<rparr>"
  let ?pr' = "\<lparr>stdout = ''a'' @ [CHR 0x0A], last_file_printed = - 1, print_file_name = False\<rparr>"
  have a: "[NUL] \<noteq> []" by simp
  have b: "hd [NUL] = end_marker ex_params" by (simp add: ex_params_def)
  have c: "loop_body ex_params 0 [NUL] 3 (?fd, ?pr) = Inr (Some 2, ?fd', ?pr')"
    by code_simp
  from filler_record_suppressed [OF a b c] a b c show ?thesis by simp
qed

text \<open>
  C8 (the code differs). With more than one target and headers on, a header is to be
  written once each time the target whose content is emitted changes. The code
  prints the header of a target when a record of it is read, also when the record
  only goes into the buffer, and the drain prints no header. Round 1: both files hold
  one line and no marker, so both headers are printed and both lines are buffered.
  Round 2: the first file has got a marker byte, and its buffer is drained: its line
  comes out right after the header of the second file.
\<close>

theorem header_not_at_drain:
  "main ex_two
     [\<lparr>disk = [(''f1'', ''a'' @ [CHR 0x0A]), (''f2'', ''b'' @ [CHR 0x0A])], stop = False\<rparr>,
      \<lparr>disk = [(''f1'', ''a'' @ [CHR 0x0A, NUL]), (''f2'', ''b'' @ [CHR 0x0A])], stop = False\<rparr>]
   = Inr (None, header ''f1'' @ header ''f2'' @ ''a'' @ [CHR 0x0A])"
  by code_simp

subsection \<open>Opening fails\<close>

text \<open>
  C6 (the code differs). When a file cannot be opened at the start, the process is to
  exit with a code other than 0. Here the only file cannot be opened: \<^verbatim>\<open>open_files\<close>
  returns false, the loop is left, and \<^verbatim>\<open>close_files\<close> is called for all \<^verbatim>\<open>num_files\<close>
  entries, so it hands the \<^verbatim>\<open>NULL\<close> handle of the file to \<^verbatim>\<open>fclose\<close>. The exit code 1
  that the comment at the head of the source promises is not produced.
\<close>

theorem failed_open_no_exit_code:
  "main ex_params [\<lparr>disk = [], stop = False\<rparr>] = Inl NullPointer"
  by code_simp

text \<open>Whenever \<^verbatim>\<open>main\<close> returns, it returns \<^verbatim>\<open>EXIT_SUCCESS\<close>.\<close>

lemma main_exit_code: "main p envs = Inr (Some c, out) \<Longrightarrow> c = EXIT_SUCCESS"
  by (auto simp: main_def split: sum.splits option.splits)

subsection \<open>Without a tail buffer\<close>

text \<open>
  Past the boundary no step of the loop has undefined behaviour, so a run with
  \<^verbatim>\<open>num_lines\<close> 0 never faults.
\<close>

lemma first_occurrence:
  "m \<in> set xs \<Longrightarrow> \<exists>k < length xs. xs ! k = m \<and> (\<forall>j < k. xs ! j \<noteq> m)"
proof (induction xs)
  case Nil
  then show ?case by simp
next
  case (Cons x xs)
  show ?case
  proof (cases "x = m")
    case True
    then have "0 < length (x # xs) \<and> (x # xs) ! 0 = m \<and> (\<forall>j < 0. (x # xs) ! j \<noteq> m)"
      by simp
    then show ?thesis by blast
  next
    case False
    with Cons.prems have "m \<in> set xs" by simp
    from Cons.IH [OF this] obtain k where
      k: "k < length xs" "xs ! k = m" "\<forall>j < k. xs ! j \<noteq> m" by blast
    have "\<forall>j < Suc k. (x # xs) ! j \<noteq> m"
      using False k(3) by (auto simp: nth_Cons split: nat.splits)
    with k have "Suc k < length (x # xs) \<and> (x # xs) ! Suc k = m
        \<and> (\<forall>j < Suc k. (x # xs) ! j \<noteq> m)"
      by simp
    then show ?thesis by blast
  qed
qed

lemma rewind_cursor_total:
  assumes "chunk \<noteq> []" and "last chunk = m"
  shows "\<exists>r. rewind_cursor (chunk @ [NUL]) m (int (length chunk)) cursor = Inr r"
proof -
  from assms have "m \<in> set chunk" using last_in_set by blast
  from first_occurrence [OF this] obtain k where
    k: "k < length chunk" "chunk ! k = m" "\<forall>j < k. chunk ! j \<noteq> m" by blast
  then have "find_end_index (chunk @ [NUL]) m (int (length chunk)) = Inr (int k)"
    by (intro find_end_index_first) (auto simp: nth_append)
  then show ?thesis by (simp add: rewind_cursor_def)
qed

lemma loop_body_total:
  assumes "end_reached fd" and "chunk \<noteq> []"
  shows "\<exists>r. loop_body p i chunk cursor (fd, pr) = Inr r"
proof -
  have "\<exists>pr1. handle_content p i (chunk @ [NUL]) (int (length chunk)) (fd, pr)
          = Inr (chunk @ [NUL], fd, pr1)"
    using assms(1) by (simp add: handle_content_def c_str_def Let_def)
  then obtain pr1 where
    h: "handle_content p i (chunk @ [NUL]) (int (length chunk)) (fd, pr)
          = Inr (chunk @ [NUL], fd, pr1)" by blast
  have l: "(chunk @ [NUL]) ! nat (int (length chunk) - 1) = last chunk"
    using assms(2) by (simp add: nth_append last_conv_nth nat_diff_distrib')
  have b: "boundary_transition p (fd, pr1) = Inr (fd, pr1)"
    using assms(1) by (simp add: boundary_transition_def)
  have "\<exists>r. end_marker_check p (chunk @ [NUL]) (int (length chunk)) cursor (fd, pr1) = Inr r"
  proof (cases "last chunk = end_marker p")
    case True
    from rewind_cursor_total [OF assms(2) True] obtain mv c where
      "rewind_cursor (chunk @ [NUL]) (end_marker p) (int (length chunk)) cursor = Inr (mv, c)"
      by fastforce
    with True l b assms(2) show ?thesis by (simp add: end_marker_check_def)
  next
    case False
    with l assms(2) show ?thesis by (simp add: end_marker_check_def)
  qed
  with h show ?thesis by (simp add: loop_body_def Let_def)
qed

lemma read_loop_total:
  "end_reached (fst s) \<Longrightarrow> \<exists>r. read_loop p i content cursor s = Inr r"
proof (induction p i content cursor s rule: read_loop.induct)
  case (1 p i content cursor s)
  let ?chunk = "getdelim content cursor (delim (fst s))"
  show ?case
  proof (cases "?chunk = []")
    case True
    then show ?thesis by (subst read_loop.simps) simp
  next
    case False
    from loop_body_total [OF _ False, of "fst s" p i "cursor + length ?chunk" "snd s"] "1.prems"
    obtain c s1 where lb: "loop_body p i ?chunk (cursor + length ?chunk) s = Inr (c, s1)"
      by fastforce
    show ?thesis
    proof (cases c)
      case None
      from lb have "end_reached (fst s1)"
        using loop_body_end_reached [of p i ?chunk "cursor + length ?chunk" "fst s" "snd s" c "fst s1" "snd s1"]
          False "1.prems" by simp
      from "1.IH" [OF refl False lb refl None this] obtain r where
        "read_loop p i content (cursor + length ?chunk) s1 = Inr r" by blast
      with False lb None show ?thesis by (subst read_loop.simps) (simp add: Let_def del: split_paired_Ex)
    next
      case (Some a)
      with False lb show ?thesis by (subst read_loop.simps) (simp add: Let_def del: split_paired_Ex)
    qed
  qed
qed

lemma poll_file_total:
  assumes "ready fa" and "i < length fa"
  shows "\<exists>fa' pr'. poll_file p env i (fa, pr) = Inr (fa', pr') \<and> ready fa' \<and> length fa' = length fa"
proof -
  from assms have "fa ! i \<in> set fa" by simp
  with assms(1) obtain cursor where c: "fp (fa ! i) = Some cursor" and e: "end_reached (fa ! i)"
    by (auto simp: ready_def)
  from read_loop_total [of "(fa ! i, pr\<lparr>print_file_name := need_to_print_file_name p\<rparr>)"
      p i "content_of env (files p ! i)" cursor] e
  obtain cursor' fd' pr' where
    r: "read_loop p i (content_of env (files p ! i)) cursor
          (fa ! i, pr\<lparr>print_file_name := need_to_print_file_name p\<rparr>) = Inr (cursor', fd', pr')"
    by fastforce
  from read_loop_evolves [OF r] e have e': "end_reached fd'" by (simp add: evolves_def)
  from r c assms(2) have
    "poll_file p env i (fa, pr) = Inr (list_update fa i (fd'\<lparr>fp := Some cursor'\<rparr>), pr')"
    by (simp add: poll_file_def)
  moreover have "ready (list_update fa i (fd'\<lparr>fp := Some cursor'\<rparr>))"
    using assms(1) e' by (auto simp: ready_def dest!: set_update_subset_insert [THEN subsetD])
  ultimately show ?thesis by simp
qed

lemma poll_files_total:
  "ready fa \<Longrightarrow> \<forall>i \<in> set is. i < length fa \<Longrightarrow> \<exists>st'. poll_files p env is (fa, pr) = Inr st'"
proof (induction "is" arbitrary: fa pr)
  case Nil
  then show ?case by simp
next
  case (Cons i "is")
  from poll_file_total [OF Cons.prems(1), of i p env pr] Cons.prems(2) obtain fa' pr' where
    a: "poll_file p env i (fa, pr) = Inr (fa', pr')" "ready fa'" "length fa' = length fa"
    by auto
  with Cons.IH [of fa' pr'] Cons.prems(2) show ?case by simp
qed

lemma close_files_total:
  "n \<le> length fa \<Longrightarrow> \<forall>j < n. fp (fa ! j) \<noteq> None \<Longrightarrow> \<exists>fa'. close_files fa n = Inr fa'"
proof (induction fa n rule: close_files.induct)
  case (1 fa)
  then show ?case by simp
next
  case (2 fa n)
  from "2.prems" obtain c where c: "fp (fa ! n) = Some c" by auto
  from "2.prems" have n: "n < length fa" by simp
  have "\<exists>fa'. close_files (fa[n := (fa ! n)\<lparr>fp := None\<rparr>]) n = Inr fa'"
    using "2.IH" [of c] n c "2.prems" by simp
  with n c show ?case by simp
qed

lemma open_files_from_total:
  assumes "length fa = n" and "n \<le> length filenames" and "\<forall>j < i. fp (fa ! j) \<noteq> None"
    and "i \<le> n"
  shows "\<exists>b fa'. open_files_from env filenames n i fa = Inr (b, fa')
           \<and> (b \<longrightarrow> (\<forall>j < n. fp (fa' ! j) \<noteq> None))"
  using assms
proof (induction env filenames n i fa rule: open_files_from.induct)
  case (1 env filenames n i fa)
  show ?case
  proof (cases "i < n")
    case False
    with "1.prems" show ?thesis by (subst open_files_from.simps) auto
  next
    case True
    with "1.prems" have len: "i < length fa" "i < length filenames" by simp_all
    show ?thesis
    proof (cases "fp (fa ! i) \<noteq> None")
      case isopen: True
      have "\<forall>j < Suc i. fp (fa ! j) \<noteq> None"
        using "1.prems"(3) isopen by (auto simp: less_Suc_eq)
      with "1.IH"(1) True len isopen "1.prems" show ?thesis
        by (subst open_files_from.simps) auto
    next
      case isclosed: False
      show ?thesis
      proof (cases "fopen env (filenames ! i)")
        case None
        from close_files_total [of i fa] len "1.prems"(3) obtain fa' where
          "close_files fa i = Inr fa'" by auto
        with None True len isclosed show ?thesis
          by (subst open_files_from.simps) auto
      next
        case (Some c)
        let ?fa = "fa[i := (fa ! i)\<lparr>fp := Some c\<rparr>]"
        have "\<forall>j < Suc i. fp (?fa ! j) \<noteq> None"
          using "1.prems"(3) len by (auto simp: less_Suc_eq nth_list_update)
        with "1.IH"(2) [of c] True len isclosed Some "1.prems" show ?thesis
          by (subst open_files_from.simps) auto
      qed
    qed
  qed
qed

lemma evolves_all_past:
  assumes "list_all2 (evolves p) fa fa'" and "\<forall>fd \<in> set fa. end_reached fd"
  shows "\<forall>fd \<in> set fa'. end_reached fd"
proof
  fix fd assume "fd \<in> set fa'"
  then obtain j where j: "j < length fa'" "fd = fa' ! j" by (auto simp: in_set_conv_nth)
  with assms(1) have "j < length fa" "evolves p (fa ! j) fd"
    by (auto simp: list_all2_conv_all_nth)
  with assms(2) show "end_reached fd" by (auto simp: evolves_def)
qed

lemma poll_rounds_total:
  assumes "length fa = num_files p" and "\<forall>fd \<in> set fa. end_reached fd"
  shows "\<exists>r. poll_rounds p envs (fa, pr) = Inr r"
  using assms
proof (induction envs arbitrary: fa pr)
  case Nil
  show ?case by (simp del: split_paired_Ex)
next
  case (Cons env envs)
  from open_files_from_total [of fa "num_files p" "files p" 0 env] Cons.prems(1)
  obtain b fa1 where
    o: "open_files env (files p) (num_files p) fa = Inr (b, fa1)"
    and op: "b \<longrightarrow> (\<forall>j < num_files p. fp (fa1 ! j) \<noteq> None)"
    by (auto simp: open_files_def num_files_def)
  from o have ev: "list_all2 (evolves p) fa fa1"
    by (auto simp: open_files_def dest: open_files_from_evolves)
  then have len1: "length fa1 = num_files p"
    using Cons.prems(1) by (auto dest: list_all2_lengthD)
  from evolves_all_past [OF ev Cons.prems(2)] have past1: "\<forall>fd \<in> set fa1. end_reached fd" .
  show ?case
  proof (cases b)
    case False
    with o show ?thesis by (simp del: split_paired_Ex)
  next
    case True
    with op len1 past1 have "ready fa1"
      by (auto simp: ready_def in_set_conv_nth)
    from poll_files_total [OF this, of "[0 ..< num_files p]" p env pr] len1
    obtain fa2 pr2 where pf: "poll_files p env [0 ..< num_files p] (fa1, pr) = Inr (fa2, pr2)"
      by fastforce
    from poll_files_evolves [OF pf] have ev2: "list_all2 (evolves p) fa1 fa2" by simp
    then have len2: "length fa2 = num_files p" using len1 by (auto dest: list_all2_lengthD)
    from evolves_all_past [OF ev2 past1] have past2: "\<forall>fd \<in> set fa2. end_reached fd" .
    from Cons.IH [OF len2 past2, of pr2] obtain r where "poll_rounds p envs (fa2, pr2) = Inr r"
      by blast
    with o True pf show ?thesis by (cases "stop env") (simp_all del: split_paired_Ex)
  qed
qed

lemma follow_total:
  assumes "num_lines p = 0"
  shows "\<exists>r. follow p envs = Inr r"
proof -
  have "\<exists>fa. init_files p = Inr fa \<and> length fa = num_files p
          \<and> (\<forall>fd \<in> set fa. end_reached fd)"
    using assms by (cases "num_files p = 0") (simp_all add: init_files_def ring_buffer_init_def)
  then obtain fa where
    i: "init_files p = Inr fa" and l: "length fa = num_files p"
    and e: "\<forall>fd \<in> set fa. end_reached fd"
    by blast
  from poll_rounds_total [OF l e, of envs init_printer] i show ?thesis
    by (auto simp: follow_def)
qed

text \<open>
  C7, as the claim states it, fails: \<^verbatim>\<open>enqueue\<close> has no test for capacity 0. On the
  buffer that \<^verbatim>\<open>ring_buffer_init\<close> makes for capacity 0 it reads \<^verbatim>\<open>rb->line[0]\<close> of an
  array of no slots.
\<close>

theorem enqueue_capacity_zero_faults:
  "ring_buffer_init 0 = Inr \<lparr>latest_index = 0, capacity = 0, size_rb = 0, line = Some []\<rparr>
   \<and> enqueue \<lparr>latest_index = 0, capacity = 0, size_rb = 0, line = Some []\<rparr>
        (''a'' @ [CHR 0x0A, NUL]) 3 = Inl OutOfBounds"
  by code_simp

text \<open>
  C7, amended. With \<^verbatim>\<open>num_lines\<close> 0 the poll loop runs without a fault, and at the end
  of every round the buffer of every target is still the one that \<^verbatim>\<open>ring_buffer_init\<close>
  made for capacity 0: nothing was enqueued, and \<^verbatim>\<open>print_ring_buffer\<close> was never
  called. A drain of this buffer writes nothing.
\<close>

theorem capacity_zero_never_buffers:
  assumes "num_lines p = 0"
  shows "\<exists>left fa pr. follow p envs = Inr (left, fa, pr)
    \<and> (\<forall>fd \<in> set fa. ring_buffer_init 0 = Inr (rb fd) \<and> drain_calls fd = 0
          \<and> print_ring_buffer (rb fd) = Inr ([], (rb fd)\<lparr>line := None\<rparr>))"
proof -
  from follow_total [OF assms, of envs] obtain left fa pr where
    f: "follow p envs = Inr (left, fa, pr)" by (metis prod_cases3)
  have "ring_buffer_init 0 = Inr (rb fd) \<and> drain_calls fd = 0
          \<and> print_ring_buffer (rb fd) = Inr ([], (rb fd)\<lparr>line := None\<rparr>)"
    if "fd \<in> set fa" for fd
  proof -
    from follow_ok [OF f that] assms
    have i: "ring_buffer_init 0 = Inr (rb fd)" and d: "drain_calls fd = 0"
      by (simp_all add: target_ok_def)
    from i have e: "rb fd = \<lparr>latest_index = 0, capacity = 0, size_rb = 0, line = Some []\<rparr>"
      by (simp add: ring_buffer_init_def)
    have "print_ring_buffer (rb fd) = Inr ([], (rb fd)\<lparr>line := None\<rparr>)"
      by (simp add: e print_ring_buffer_def)
    with i d show ?thesis by simp
  qed
  with f show ?thesis by blast
qed

theorem capacity_zero_never_buffers_witness:
  "num_lines (ex_params\<lparr>num_lines := 0\<rparr>) = 0
   \<and> follow (ex_params\<lparr>num_lines := 0\<rparr>) [ex_round1, ex_round2] = Inr (False,
      [\<lparr>fp = Some 2,
        rb = \<lparr>latest_index = 0, capacity = 0, size_rb = 0, line = Some []\<rparr>,
        end_reached = True, delim = CHR 0x0A, drain_calls = 0\<rparr>],
      \<lparr>stdout = ''a'' @ [CHR 0x0A], last_file_printed = - 1, print_file_name = False\<rparr>)
   \<and> ring_buffer_init 0
       = Inr \<lparr>latest_index = 0, capacity = 0, size_rb = 0, line = Some []\<rparr>
   \<and> print_ring_buffer \<lparr>latest_index = 0, capacity = 0, size_rb = 0, line = Some []\<rparr>
       = Inr ([], \<lparr>latest_index = 0, capacity = 0, size_rb = 0, line = None\<rparr>)"
proof -
  let ?fd = "\<lparr>fp = Some 2,
        rb = \<lparr>latest_index = 0, capacity = 0, size_rb = 0, line = Some []\<rparr>,
        end_reached = True, delim = CHR 0x0A, drain_calls = 0\<rparr>"
  have n: "num_lines (ex_params\<lparr>num_lines := 0\<rparr>) = 0" by simp
  have a: "follow (ex_params\<lparr>num_lines := 0\<rparr>) [ex_round1, ex_round2] = Inr (False, [?fd],
      \<lparr>stdout = ''a'' @ [CHR 0x0A], last_file_printed = - 1, print_file_name = False\<rparr>)"
    by code_simp
  from capacity_zero_never_buffers [OF n, of "[ex_round1, ex_round2]"] a
  have "ring_buffer_init 0 = Inr (rb ?fd)
    \<and> print_ring_buffer (rb ?fd) = Inr ([], (rb ?fd)\<lparr>line := None\<rparr>)"
    by auto
  with n a show ?thesis by simp
qed

subsection \<open>The life of the buffer\<close>

text \<open>
  C9, as the claim states it, fails in the case it names last. With \<^verbatim>\<open>num_lines\<close> 0 the
  flag is true from the start, and the array that \<^verbatim>\<open>ring_buffer_init\<close> allocated is
  still there after two rounds: nothing frees it.
\<close>

theorem buffer_kept_without_tail:
  "follow (ex_params\<lparr>num_lines := 0\<rparr>) [ex_round1, ex_round2] = Inr (False,
      [\<lparr>fp = Some 2,
        rb = \<lparr>latest_index = 0, capacity = 0, size_rb = 0, line = Some []\<rparr>,
        end_reached = True, delim = CHR 0x0A, drain_calls = 0\<rparr>],
      \<lparr>stdout = ''a'' @ [CHR 0x0A], last_file_printed = - 1, print_file_name = False\<rparr>)"
  by code_simp

text \<open>
  C9, amended. At the end of every round of a run with a tail buffer (\<^verbatim>\<open>num_lines\<close>
  is not 0), the buffer of a target is non-null exactly if the flag is false, and a
  buffer that is gone is still gone after any number of further rounds. In a run
  without a tail buffer the flag is true from the start, and the array of no slots
  that \<^verbatim>\<open>ring_buffer_init\<close> allocated is there at the end of every round, unchanged.
\<close>

theorem buffer_live_until_boundary:
  assumes "follow p envs = Inr (False, fa, pr)"
    and "poll_rounds p envs' (fa, pr) = Inr (left, fa', pr')"
    and "i < length fa"
  shows "if num_lines p = 0
         then end_reached (fa ! i) \<and> line (rb (fa ! i)) \<noteq> None \<and> rb (fa' ! i) = rb (fa ! i)
         else (line (rb (fa ! i)) \<noteq> None) = (\<not> end_reached (fa ! i))
            \<and> (line (rb (fa' ! i)) \<noteq> None) = (\<not> end_reached (fa' ! i))
            \<and> (line (rb (fa ! i)) = None \<longrightarrow> line (rb (fa' ! i)) = None)"
proof -
  from assms(3) have mem: "fa ! i \<in> set fa" by simp
  from follow_ok [OF assms(1) mem] have ok: "target_ok p (fa ! i)" .
  from poll_rounds_evolves [OF assms(2)] assms(3)
  have ev: "evolves p (fa ! i) (fa' ! i)"
    by (auto simp: list_all2_conv_all_nth)
  with ok have ok': "target_ok p (fa' ! i)" by (simp add: evolves_def)
  show ?thesis
  proof (cases "num_lines p = 0")
    case True
    with ok have e: "end_reached (fa ! i)" and "ring_buffer_init 0 = Inr (rb (fa ! i))"
      by (simp_all add: target_ok_def)
    then have "rb (fa ! i) = \<lparr>latest_index = 0, capacity = 0, size_rb = 0, line = Some []\<rparr>"
      by (simp add: ring_buffer_init_def)
    then have "line (rb (fa ! i)) \<noteq> None" by simp
    with ev e True show ?thesis
      by (simp add: evolves_def)
  next
    case False
    with ok ok' ev show ?thesis
      by (auto simp: target_ok_def evolves_def)
  qed
qed

theorem buffer_live_until_boundary_witness:
  "follow ex_params [ex_round1] = Inr (False,
      [\<lparr>fp = Some 2,
        rb = \<lparr>latest_index = 0, capacity = 2, size_rb = 1,
               line = Some [Some (''a'' @ [CHR 0x0A, NUL]), None]\<rparr>,
        end_reached = False, delim = CHR 0x0A, drain_calls = 0\<rparr>],
      \<lparr>stdout = [], last_file_printed = - 1, print_file_name = False\<rparr>)
   \<and> poll_rounds ex_params [ex_round2]
       ([\<lparr>fp = Some 2,
          rb = \<lparr>latest_index = 0, capacity = 2, size_rb = 1,
                 line = Some [Some (''a'' @ [CHR 0x0A, NUL]), None]\<rparr>,
          end_reached = False, delim = CHR 0x0A, drain_calls = 0\<rparr>],
        \<lparr>stdout = [], last_file_printed = - 1, print_file_name = False\<rparr>)
     = Inr (False,
        [\<lparr>fp = Some 2,
          rb = \<lparr>latest_index = 0, capacity = 2, size_rb = 1, line = None\<rparr>,
          end_reached = True, delim = NUL, drain_calls = 1\<rparr>],
        \<lparr>stdout = ''a'' @ [CHR 0x0A], last_file_printed = - 1, print_file_name = False\<rparr>)
   \<and> follow (ex_params\<lparr>num_lines := 0\<rparr>) [ex_round1] = Inr (False,
      [\<lparr>fp = Some 2,
        rb = \<lparr>latest_index = 0, capacity = 0, size_rb = 0, line = Some []\<rparr>,
        end_reached = True, delim = CHR 0x0A, drain_calls = 0\<rparr>],
      \<lparr>stdout = ''a'' @ [CHR 0x0A], last_file_printed = - 1, print_file_name = False\<rparr>)
   \<and> poll_rounds (ex_params\<lparr>num_lines := 0\<rparr>) [ex_round2]
       ([\<lparr>fp = Some 2,
          rb = \<lparr>latest_index = 0, capacity = 0, size_rb = 0, line = Some []\<rparr>,
          end_reached = True, delim = CHR 0x0A, drain_calls = 0\<rparr>],
        \<lparr>stdout = ''a'' @ [CHR 0x0A], last_file_printed = - 1, print_file_name = False\<rparr>)
     = Inr (False,
        [\<lparr>fp = Some 2,
          rb = \<lparr>latest_index = 0, capacity = 0, size_rb = 0, line = Some []\<rparr>,
          end_reached = True, delim = CHR 0x0A, drain_calls = 0\<rparr>],
        \<lparr>stdout = ''a'' @ [CHR 0x0A], last_file_printed = - 1, print_file_name = False\<rparr>)"
proof -
  let ?fd = "\<lparr>fp = Some 2,
        rb = \<lparr>latest_index = 0, capacity = 2, size_rb = 1,
               line = Some [Some (''a'' @ [CHR 0x0A, NUL]), None]\<rparr>,
        end_reached = False, delim = CHR 0x0A, drain_calls = 0\<rparr>"
  let ?pr = "\<lparr>stdout = [], last_file_printed = - 1, print_file_name = False\<rparr>"
  let ?fd' = "\<lparr>fp = Some 2,
          rb = \<lparr>latest_index = 0, capacity = 2, size_rb = 1, line = None\<rparr>,
          end_reached = True, delim = NUL, drain_calls = 1\<rparr>"
  let ?pr' = "\<lparr>stdout = ''a'' @ [CHR 0x0A], last_file_printed = - 1, print_file_name = False\<rparr>"
  let ?nofd = "\<lparr>fp = Some 2,
        rb = \<lparr>latest_index = 0, capacity = 0, size_rb = 0, line = Some []\<rparr>,
        end_reached = True, delim = CHR 0x0A, drain_calls = 0\<rparr>"
  have a: "follow ex_params [ex_round1] = Inr (False, [?fd], ?pr)"
    by code_simp
  have b: "poll_rounds ex_params [ex_round2] ([?fd], ?pr) = Inr (False, [?fd'], ?pr')"
    by code_simp
  have c: "(0::nat) < length [?fd]" by simp
  have a0: "follow (ex_params\<lparr>num_lines := 0\<rparr>) [ex_round1] = Inr (False, [?nofd], ?pr')"
    by code_simp
  have b0: "poll_rounds (ex_params\<lparr>num_lines := 0\<rparr>) [ex_round2] ([?nofd], ?pr')
      = Inr (False, [?nofd], ?pr')"
    by code_simp
  have c0: "(0::nat) < length [?nofd]" by simp
  from buffer_live_until_boundary [OF a b c] buffer_live_until_boundary [OF a0 b0 c0]
    a b a0 b0 show ?thesis by simp
qed

end
